theory Spec2Isabelle
  imports Main "HOL-Library.Word"
begin

section \<open>Data model of chan.c\<close>

text \<open>
  \<open>size_t\<close> is a 64-bit word, so that \<open>first + items\<close> wraps as it does in C.
  \<open>int\<close> and \<open>int64_t\<close> values (return codes, clause indices, deadlines) are only
  compared and incremented below \<open>nclauses\<close>; they are modelled as \<open>int\<close>.
  A pointer to a caller-owned buffer is an address; address \<open>0\<close> is the null pointer.
\<close>

type_synonym byte = "8 word"
type_synonym size_t = "64 word"
type_synonym addr = nat
type_synonym task = nat

datatype errno_t = E0 | EINVAL | EPIPE | ETIMEDOUT | ECANCELED | EBADF | ENOTSUP | ENOMEM

text \<open>
  \<open>struct dill_chcl\<close>: a clause parked on a waiter list. Of the embedded
  \<open>struct dill_clause\<close> the model keeps the owning coroutine \<open>cr\<close> and the
  identifier \<open>clid\<close> given to \<open>dill_waitfor\<close>; \<open>val\<close> is the payload pointer.
\<close>

record dill_chcl =
  cr :: task
  clid :: int
  val :: addr

text \<open>
  \<open>struct dill_chan\<close>. The message buffer that follows the structure in memory is
  the field \<open>buf\<close>, one byte list per slot; \<open>in\<close> and \<open>out\<close> are the two waiter lists
  (\<open>in_list\<close>: clauses wanting to receive, \<open>out_list\<close>: clauses wanting to send).
\<close>

record dill_chan =
  sz :: size_t
  in_list :: "dill_chcl list"
  out_list :: "dill_chcl list"
  bufsz :: size_t
  items :: size_t
  first :: size_t
  done_flag :: bool
  buf :: "byte list list"

text \<open>\<open>struct chclause\<close> of libdill.h, as \<open>choose\<close> reads it.\<close>

datatype chop = CHSEND | CHRECV | CHOTHER int

record chclause =
  cl_op :: chop
  cl_ch :: int
  cl_val :: addr
  cl_len :: size_t

datatype hobj = HChan dill_chan | HOther

text \<open>
  The process state the channel code works on: the shutdown flag read by
  \<open>dill_canblock\<close>, \<open>errno\<close>, the handle table, the memory holding the callers'
  payload buffers, the armed timers, and for every coroutine that has been triggered the
  pair (clause id, error) that its pending \<open>dill_wait\<close> will return.
\<close>

record state =
  shutdown :: bool
  errno :: errno_t
  handles :: "int \<Rightarrow> hobj option"
  memory :: "addr \<Rightarrow> byte list"
  timers :: "task \<Rightarrow> (int \<times> int) option"
  wakeup :: "task \<Rightarrow> (int \<times> errno_t) option"

datatype fault = DivByZero | OutOfBounds | AssertFailed

text \<open>
  What a call does: it returns an \<open>int\<close>, or it suspends in \<open>dill_wait\<close>
  (\<open>Blocked\<close>), or it runs into undefined behaviour or a failed \<open>dill_assert\<close>.
\<close>

datatype outcome = Ret int | Blocked | Fault fault

datatype chlist = ChIn | ChOut

section \<open>Collaborators\<close>

text \<open>
  Modelled from the spec: \<open>dill_canblock\<close> (cr.h) is not part of the sources. The
  scheduler contract is \<open>can_block() \<rightarrow> ok | CANCELED\<close>: it fails with ECANCELED once
  the process-wide shutdown has been signalled.
\<close>

definition dill_canblock :: "state \<Rightarrow> int \<times> state" where
  "dill_canblock s = (if shutdown s then (-1, s\<lparr>errno := ECANCELED\<rparr>) else (0, s))"

text \<open>
  Modelled from the spec: \<open>hquery\<close> (the handle layer) is not part of the sources. It
  returns the object behind the handle, fails with EBADF on a handle that refers to
  nothing, and on an object that is not a channel with the type-mismatch error, which
  \<open>dill_chan_query\<close> sets to ENOTSUP.
\<close>

definition hquery :: "state \<Rightarrow> int \<Rightarrow> dill_chan option \<times> state" where
  "hquery s h =
     (case handles s h of
        None \<Rightarrow> (None, s\<lparr>errno := EBADF\<rparr>)
      | Some HOther \<Rightarrow> (None, s\<lparr>errno := ENOTSUP\<rparr>)
      | Some (HChan c) \<Rightarrow> (Some c, s))"

text \<open>Writing through the pointer \<open>ch\<close> that \<open>hquery\<close> returned for handle \<open>h\<close>.\<close>

definition put_chan :: "state \<Rightarrow> int \<Rightarrow> dill_chan \<Rightarrow> state" where
  "put_chan s h c = s\<lparr>handles := (handles s)(h \<mapsto> HChan c)\<rparr>"

text \<open>
  \<open>memcpy(dst, src, n)\<close> on the contents of two buffers: the first \<open>n\<close> bytes of the
  destination are replaced by the first \<open>n\<close> bytes of the source. Both buffers are
  taken to hold at least \<open>n\<close> bytes, as the callers of the channel functions guarantee.
\<close>

definition memcpy :: "byte list \<Rightarrow> byte list \<Rightarrow> size_t \<Rightarrow> byte list" where
  "memcpy dst src n = take (unat n) src @ drop (unat n) dst"

definition unlink :: "task \<Rightarrow> dill_chan \<Rightarrow> dill_chan" where
  "unlink t c = c\<lparr>in_list := filter (\<lambda>k. cr k \<noteq> t) (in_list c),
                  out_list := filter (\<lambda>k. cr k \<noteq> t) (out_list c)\<rparr>"

fun unlink_hobj :: "task \<Rightarrow> hobj \<Rightarrow> hobj" where
  "unlink_hobj t (HChan c) = HChan (unlink t c)"
| "unlink_hobj t HOther = HOther"

text \<open>
  Modelled from the spec: \<open>dill_trigger\<close> (cr.h) is not part of the sources. The
  scheduler contract is that \<open>trigger(clause, result_code)\<close> moves the clause's task to
  the ready queue and records the result, and that all sibling registrations of that
  task (its other clauses and its timer) are unlinked atomically.
\<close>

definition dill_trigger :: "state \<Rightarrow> dill_chcl \<Rightarrow> errno_t \<Rightarrow> state" where
  "dill_trigger s k e =
     s\<lparr>handles := (\<lambda>h. map_option (unlink_hobj (cr k)) (handles s h)),
       timers := (timers s)(cr k := None),
       wakeup := (wakeup s)(cr k \<mapsto> (clid k, e))\<rparr>"

definition get_list :: "chlist \<Rightarrow> dill_chan \<Rightarrow> dill_chcl list" where
  "get_list l c = (case l of ChIn \<Rightarrow> in_list c | ChOut \<Rightarrow> out_list c)"

definition list_insert :: "chlist \<Rightarrow> dill_chcl \<Rightarrow> dill_chan \<Rightarrow> dill_chan" where
  "list_insert l k c =
     (case l of ChIn \<Rightarrow> c\<lparr>in_list := in_list c @ [k]\<rparr>
              | ChOut \<Rightarrow> c\<lparr>out_list := out_list c @ [k]\<rparr>)"

text \<open>
  Modelled from the spec: \<open>dill_waitfor\<close> (cr.h) is not part of the sources. The
  contract is \<open>park_on(list, tag, payload)\<close>: the clause of the running task \<open>t\<close>, tagged
  \<open>i\<close>, is appended to the waiter list (lists are FIFO, insertion is at the tail).
\<close>

definition dill_waitfor :: "state \<Rightarrow> task \<Rightarrow> int \<Rightarrow> int \<Rightarrow> chlist \<Rightarrow> addr \<Rightarrow> state" where
  "dill_waitfor s t i h l v =
     (case handles s h of
        Some (HChan c) \<Rightarrow> put_chan s h (list_insert l \<lparr>cr = t, clid = i, val = v\<rparr> c)
      | _ \<Rightarrow> s)"

text \<open>
  Modelled from the spec: \<open>dill_timer\<close> (cr.h) is not part of the sources. The
  contract is \<open>arm_timer(tag, deadline)\<close>; a deadline of \<open>-1\<close> is infinite and arms
  nothing.
\<close>

definition dill_timer :: "state \<Rightarrow> task \<Rightarrow> int \<Rightarrow> int \<Rightarrow> state" where
  "dill_timer s t i deadline =
     (if deadline < 0 then s else s\<lparr>timers := (timers s)(t \<mapsto> (i, deadline))\<rparr>)"

text \<open>
  Modelled from the spec: the expiry of a timer is the scheduler's doing. The parked
  operation is withdrawn from every waiter list and its \<open>dill_wait\<close> returns the
  timer's tag with ETIMEDOUT.
\<close>

definition timer_fire :: "state \<Rightarrow> task \<Rightarrow> state" where
  "timer_fire s t =
     (case timers s t of
        None \<Rightarrow> s
      | Some (i, deadline) \<Rightarrow> dill_trigger s \<lparr>cr = t, clid = i, val = 0\<rparr> ETIMEDOUT)"

text \<open>
  Modelled from the spec: \<open>dill_wait\<close> (cr.h) is not part of the sources. When the
  task is resumed, it returns the tag of the first event and \<open>errno\<close> holds the result
  code recorded by the trigger. \<open>None\<close>: the task has not been triggered yet.
\<close>

definition dill_wait :: "state \<Rightarrow> task \<Rightarrow> (int \<times> state) option" where
  "dill_wait s t =
     (case wakeup s t of
        None \<Rightarrow> None
      | Some (i, e) \<Rightarrow> Some (i, s\<lparr>errno := e, wakeup := (wakeup s)(t := None)\<rparr>))"

text \<open>
  The C operator \<open>%\<close> on \<open>size_t\<close>: a zero divisor is undefined behaviour, here
  \<open>None\<close>.
\<close>

definition size_mod :: "size_t \<Rightarrow> size_t \<Rightarrow> size_t option" where
  "size_mod a b = (if b = 0 then None else Some (a mod b))"

section \<open>Channel creation\<close>

text \<open>
  \<open>channel\<close>. The results of \<open>malloc\<close> and \<open>hmake\<close> are parameters: \<open>malloc_ok\<close>
  tells whether the allocation succeeded, \<open>hm\<close> is either the errno of a failed
  \<open>hmake\<close> or the new handle. The allocated buffer is uninitialised in C; no slot is
  read before it has been written, and the model fills it with zero bytes. The size
  passed to \<open>malloc\<close>, \<open>sizeof(struct dill_chan) + itemsz * bufsz\<close>, is computed in
  \<open>size_t\<close>; the model gives the channel its \<open>bufsz\<close> slots of \<open>itemsz\<close> bytes, which
  is what the allocation provides whenever that computation does not wrap.
\<close>

definition channel :: "state \<Rightarrow> size_t \<Rightarrow> size_t \<Rightarrow> bool \<Rightarrow> errno_t + int \<Rightarrow> int \<times> state" where
  "channel s itemsz bsz malloc_ok hm =
     (case dill_canblock s of (rc, s1) \<Rightarrow>
        if rc < 0 then (-1, s1)
        else if \<not> malloc_ok then (-1, s1\<lparr>errno := ENOMEM\<rparr>)
        else
          let c = \<lparr>sz = itemsz, in_list = [], out_list = [], bufsz = bsz, items = 0,
                   first = 0, done_flag = False,
                   buf = replicate (unat bsz) (replicate (unat itemsz) 0)\<rparr>
          in (case hm of
                Inl e \<Rightarrow> (-1, s1\<lparr>errno := e\<rparr>)
              | Inr h \<Rightarrow> (h, put_chan s1 h c)))"

section \<open>Sending and receiving\<close>

text \<open>
  \<open>chsend\<close> up to the call of \<open>dill_wait\<close>; \<open>t\<close> is the running coroutine. Note that
  the length check returns \<open>-1\<close> without assigning \<open>errno\<close>.
\<close>

definition chsend :: "state \<Rightarrow> task \<Rightarrow> int \<Rightarrow> addr \<Rightarrow> size_t \<Rightarrow> int \<Rightarrow> outcome \<times> state" where
  "chsend s t h v len deadline =
     (case dill_canblock s of (rc, s1) \<Rightarrow>
        if rc < 0 then (Ret (-1), s1)
        else (case hquery s1 h of
            (None, s2) \<Rightarrow> (Ret (-1), s2)
          | (Some c, s2) \<Rightarrow>
              if len \<noteq> sz c then (Ret (-1), s2)
              else if done_flag c then (Ret (-1), s2\<lparr>errno := EPIPE\<rparr>)
              else if in_list c \<noteq> [] then
                (let chcl = hd (in_list c);
                     s3 = s2\<lparr>memory := (memory s2)
                            (val chcl := memcpy (memory s2 (val chcl)) (memory s2 v) len)\<rparr>
                 in (Ret 0, dill_trigger s3 chcl E0))
              else if items c < bufsz c then
                (case size_mod (first c + items c) (bufsz c) of
                   None \<Rightarrow> (Fault DivByZero, s2)
                 | Some pos \<Rightarrow>
                     (Ret 0, put_chan s2 h
                        (c\<lparr>buf := (buf c)[unat pos :=
                                    memcpy (buf c ! unat pos) (memory s2 v) len],
                           items := items c + 1\<rparr>)))
              else if deadline = 0 then (Ret (-1), s2\<lparr>errno := ETIMEDOUT\<rparr>)
              else (Blocked, dill_timer (dill_waitfor s2 t 0 h ChOut v) t 1 deadline)))"

text \<open>
  The rest of \<open>chsend\<close> and of \<open>chrecv\<close>, run when the coroutine is resumed: the two
  functions end with the same four statements.
\<close>

definition chsend_resume :: "state \<Rightarrow> task \<Rightarrow> (int \<times> state) option" where
  "chsend_resume s t =
     (case dill_wait s t of
        None \<Rightarrow> None
      | Some (i, s1) \<Rightarrow>
          Some (if i < 0 then (-1, s1)
                else if i = 1 then (-1, s1\<lparr>errno := ETIMEDOUT\<rparr>)
                else if errno s1 \<noteq> E0 then (-1, s1)
                else (0, s1)))"

definition chrecv :: "state \<Rightarrow> task \<Rightarrow> int \<Rightarrow> addr \<Rightarrow> size_t \<Rightarrow> int \<Rightarrow> outcome \<times> state" where
  "chrecv s t h v len deadline =
     (case dill_canblock s of (rc, s1) \<Rightarrow>
        if rc < 0 then (Ret (-1), s1)
        else (case hquery s1 h of
            (None, s2) \<Rightarrow> (Ret (-1), s2)
          | (Some c, s2) \<Rightarrow>
              if len \<noteq> sz c then (Ret (-1), s2)
              else if items c \<noteq> 0 then
                (let s3 = s2\<lparr>memory := (memory s2)
                            (v := memcpy (memory s2 v) (buf c ! unat (first c)) len)\<rparr>
                 in (case size_mod (first c + 1) (bufsz c) of
                       None \<Rightarrow> (Fault DivByZero, s3)
                     | Some f \<Rightarrow>
                         (let c1 = c\<lparr>first := f, items := items c - 1\<rparr>
                          in if out_list c1 \<noteq> [] then
                               (let chcl = hd (out_list c1)
                                in (case size_mod (first c1 + items c1) (bufsz c1) of
                                      None \<Rightarrow> (Fault DivByZero, put_chan s3 h c1)
                                    | Some pos \<Rightarrow>
                                        (let c2 = c1\<lparr>buf := (buf c1)[unat pos :=
                                                     memcpy (buf c1 ! unat pos)
                                                       (memory s3 (val chcl)) len],
                                                   items := items c1 + 1\<rparr>
                                         in (Ret 0, dill_trigger (put_chan s3 h c2) chcl E0))))
                             else (Ret 0, put_chan s3 h c1))))
              else if out_list c \<noteq> [] then
                (let chcl = hd (out_list c);
                     s3 = s2\<lparr>memory := (memory s2)
                            (v := memcpy (memory s2 v) (memory s2 (val chcl)) len)\<rparr>
                 in (Ret 0, dill_trigger s3 chcl E0))
              else if done_flag c \<and> items c = 0 then (Ret (-1), s2\<lparr>errno := EPIPE\<rparr>)
              else if deadline = 0 then (Ret (-1), s2\<lparr>errno := ETIMEDOUT\<rparr>)
              else (Blocked, dill_timer (dill_waitfor s2 t 0 h ChIn v) t 1 deadline)))"

definition chrecv_resume :: "state \<Rightarrow> task \<Rightarrow> (int \<times> state) option" where
  "chrecv_resume s t =
     (case dill_wait s t of
        None \<Rightarrow> None
      | Some (i, s1) \<Rightarrow>
          Some (if i < 0 then (-1, s1)
                else if i = 1 then (-1, s1\<lparr>errno := ETIMEDOUT\<rparr>)
                else if errno s1 \<noteq> E0 then (-1, s1)
                else (0, s1)))"

section \<open>Closing\<close>

text \<open>
  The loop \<open>while(!dill_list_empty(l)) dill_trigger(head of l, EPIPE)\<close>, which
  \<open>chdone\<close> runs on \<open>&ch->in\<close> and then on \<open>&ch->out\<close>. It ends because a
  trigger unlinks the clause it is given.
\<close>

definition waiters :: "state \<Rightarrow> int \<Rightarrow> chlist \<Rightarrow> dill_chcl list" where
  "waiters s h l = (case handles s h of Some (HChan c) \<Rightarrow> get_list l c | _ \<Rightarrow> [])"

function drain :: "state \<Rightarrow> int \<Rightarrow> chlist \<Rightarrow> state" where
  "drain s h l =
     (case waiters s h l of
        [] \<Rightarrow> s
      | k # ks \<Rightarrow> drain (dill_trigger s k EPIPE) h l)"
  by pat_completeness auto
termination
proof (relation "measure (\<lambda>(s, h, l). length (waiters s h l))")
  show "wf (measure (\<lambda>(s, h, l). length (waiters s h l)))" by simp
next
  fix s :: state and h :: int and l :: chlist and k ks
  assume w: "waiters s h l = k # ks"
  have tr: "waiters (dill_trigger s k EPIPE) h l = filter (\<lambda>x. cr x \<noteq> cr k) (waiters s h l)"
    by (cases "handles s h"; cases l)
       (auto simp: waiters_def dill_trigger_def get_list_def unlink_def split: hobj.splits)
  have "length (filter (\<lambda>x. cr x \<noteq> cr k) ks) \<le> length ks"
    by (rule length_filter_le)
  then show "((dill_trigger s k EPIPE, h, l), (s, h, l))
               \<in> measure (\<lambda>(s, h, l). length (waiters s h l))"
    by (simp add: tr w less_Suc_eq_le)
qed

definition chdone :: "state \<Rightarrow> int \<Rightarrow> outcome \<times> state" where
  "chdone s h =
     (case hquery s h of
        (None, s1) \<Rightarrow> (Ret (-1), s1)
      | (Some c, s1) \<Rightarrow>
          if done_flag c then (Ret (-1), s1\<lparr>errno := EPIPE\<rparr>)
          else (Ret 0, drain (drain (put_chan s1 h (c\<lparr>done_flag := True\<rparr>)) h ChIn) h ChOut))"

section \<open>Choice\<close>

text \<open>
  The body of the polling loop of \<open>choose\<close> for the clause \<open>k\<close> at index \<open>i\<close>.
  \<open>None\<close> is the \<open>break\<close> that leaves the \<open>switch\<close> and goes on to the next
  clause; every other path returns from \<open>choose\<close>.
\<close>

definition poll_clause :: "state \<Rightarrow> int \<Rightarrow> chclause \<Rightarrow> (outcome \<times> state) option" where
  "poll_clause s i k =
     (case hquery s (cl_ch k) of
        (None, s1) \<Rightarrow> Some (Ret i, s1)
      | (Some c, s1) \<Rightarrow>
          if cl_len k \<noteq> sz c \<or> (cl_len k > 0 \<and> cl_val k = 0)
          then Some (Ret i, s1\<lparr>errno := EINVAL\<rparr>)
          else (case cl_op k of
            CHSEND \<Rightarrow>
              if items c < bufsz c \<or> in_list c \<noteq> [] \<or> done_flag c then
                (if done_flag c then Some (Ret i, s1\<lparr>errno := EPIPE\<rparr>)
                 else if in_list c \<noteq> [] then
                   (let chcl = hd (in_list c);
                        s2 = s1\<lparr>memory := (memory s1)
                               (val chcl := memcpy (memory s1 (val chcl))
                                              (memory s1 (cl_val k)) (cl_len k))\<rparr>
                    in Some (Ret i, (dill_trigger s2 chcl E0)\<lparr>errno := E0\<rparr>))
                 else if \<not> items c < bufsz c then Some (Fault AssertFailed, s1)
                 else (case size_mod (first c + items c) (bufsz c) of
                         None \<Rightarrow> Some (Fault DivByZero, s1)
                       | Some pos \<Rightarrow>
                           Some (Ret i, (put_chan s1 (cl_ch k)
                             (c\<lparr>buf := (buf c)[unat pos :=
                                         memcpy (buf c ! unat pos) (memory s1 (cl_val k))
                                           (cl_len k)],
                                items := items c + 1\<rparr>))\<lparr>errno := E0\<rparr>)))
              else None
          | CHRECV \<Rightarrow>
              if items c \<noteq> 0 \<or> out_list c \<noteq> [] \<or> done_flag c then
                (if done_flag c \<and> items c = 0 then Some (Ret i, s1\<lparr>errno := EPIPE\<rparr>)
                 else if items c = 0 then
                   (let chcl = hd (out_list c);
                        s2 = s1\<lparr>memory := (memory s1)
                               (cl_val k := memcpy (memory s1 (cl_val k))
                                              (memory s1 (val chcl)) (sz c))\<rparr>
                    in Some (Ret i, (dill_trigger s2 chcl E0)\<lparr>errno := E0\<rparr>))
                 else
                   (let s2 = s1\<lparr>memory := (memory s1)
                               (cl_val k := memcpy (memory s1 (cl_val k))
                                              (buf c ! unat (first c)) (sz c))\<rparr>
                    in (case size_mod (first c + 1) (bufsz c) of
                          None \<Rightarrow> Some (Fault DivByZero, s2)
                        | Some f \<Rightarrow>
                            (let c1 = c\<lparr>first := f, items := items c - 1\<rparr>
                             in if out_list c1 \<noteq> [] then
                                  (let chcl = hd (out_list c1)
                                   in (case size_mod (first c1 + items c1) (bufsz c1) of
                                         None \<Rightarrow>
                                           Some (Fault DivByZero, put_chan s2 (cl_ch k) c1)
                                       | Some pos \<Rightarrow>
                                           (let c2 = c1\<lparr>buf := (buf c1)[unat pos :=
                                                        memcpy (buf c1 ! unat pos)
                                                          (memory s2 (val chcl)) (sz c)],
                                                      items := items c1 + 1\<rparr>
                                            in Some (Ret i,
                                                 (dill_trigger (put_chan s2 (cl_ch k) c2)
                                                    chcl E0)\<lparr>errno := E0\<rparr>))))
                                else Some (Ret i,
                                       (put_chan s2 (cl_ch k) c1)\<lparr>errno := E0\<rparr>)))))
              else None
          | CHOTHER x \<Rightarrow> Some (Ret i, s1\<lparr>errno := EINVAL\<rparr>)))"

text \<open>
  The polling loop \<open>for(i = 0; i != nclauses; ++i)\<close>. The array is the list of the
  clauses from index \<open>i\<close> on; reading past its end is a fault. \<open>None\<close>: the loop ran
  to its end, no clause was available.
\<close>

fun poll :: "state \<Rightarrow> int \<Rightarrow> int \<Rightarrow> chclause list \<Rightarrow> (outcome \<times> state) option" where
  "poll s n i [] = (if i = n then None else Some (Fault OutOfBounds, s))"
| "poll s n i (k # ks) =
     (if i = n then None
      else (case poll_clause s i k of
              Some r \<Rightarrow> Some r
            | None \<Rightarrow> poll s n (i + 1) ks))"

text \<open>
  The second loop: one clause per entry is registered on \<open>&ch->in\<close> for CHRECV and on
  \<open>&ch->out\<close> otherwise. \<open>dill_assert(ch)\<close> fails when the handle is no channel.
\<close>

fun park_loop :: "state \<Rightarrow> task \<Rightarrow> int \<Rightarrow> int \<Rightarrow> chclause list \<Rightarrow> fault + state" where
  "park_loop s t n i [] = (if i = n then Inr s else Inl OutOfBounds)"
| "park_loop s t n i (k # ks) =
     (if i = n then Inr s
      else (case hquery s (cl_ch k) of
              (None, s1) \<Rightarrow> Inl AssertFailed
            | (Some c, s1) \<Rightarrow>
                park_loop
                  (dill_waitfor s1 t i (cl_ch k)
                     (if cl_op k = CHRECV then ChIn else ChOut) (cl_val k))
                  t n (i + 1) ks))"

text \<open>
  \<open>choose\<close> up to the call of \<open>dill_wait\<close> (the name \<open>choose\<close> is taken by the
  binomial coefficient, hence \<open>dill_choose\<close>). The pointer \<open>clauses\<close> is \<open>None\<close> when
  it is null.
\<close>

definition dill_choose :: "state \<Rightarrow> task \<Rightarrow> chclause list option \<Rightarrow> int \<Rightarrow> int \<Rightarrow> outcome \<times> state" where
  "dill_choose s t clauses nclauses deadline =
     (case dill_canblock s of (rc, s1) \<Rightarrow>
        if rc < 0 then (Ret (-1), s1)
        else if nclauses < 0 \<or> (nclauses \<noteq> 0 \<and> clauses = None)
        then (Ret (-1), s1\<lparr>errno := EINVAL\<rparr>)
        else
          (let ks = (case clauses of None \<Rightarrow> [] | Some xs \<Rightarrow> xs)
           in (case poll s1 nclauses 0 ks of
                 Some r \<Rightarrow> r
               | None \<Rightarrow>
                   if deadline = 0 then (Ret (-1), s1\<lparr>errno := ETIMEDOUT\<rparr>)
                   else (case park_loop s1 t nclauses 0 ks of
                           Inl f \<Rightarrow> (Fault f, s1)
                         | Inr s2 \<Rightarrow> (Blocked, dill_timer s2 t nclauses deadline)))))"

definition choose_resume :: "state \<Rightarrow> task \<Rightarrow> int \<Rightarrow> (int \<times> state) option" where
  "choose_resume s t nclauses =
     (case dill_wait s t of
        None \<Rightarrow> None
      | Some (i, s1) \<Rightarrow>
          Some (if i < 0 then (-1, s1)
                else if i = nclauses then (-1, s1\<lparr>errno := ETIMEDOUT\<rparr>)
                else (i, s1)))"

section \<open>Sequences of top-level operations\<close>

text \<open>
  A top-level operation with its arguments and the coroutine that runs it; \<open>Expire\<close>
  is the expiry of a coroutine's timer.
\<close>

datatype call =
    Create size_t size_t bool "errno_t + int"
  | Send task int addr size_t int
  | Recv task int addr size_t int
  | Done int
  | Choose task "chclause list option" int int
  | Expire task

fun step :: "state \<Rightarrow> call \<Rightarrow> outcome \<times> state" where
  "step s (Create itemsz bsz ok hm) =
     (case channel s itemsz bsz ok hm of (h, s1) \<Rightarrow> (Ret h, s1))"
| "step s (Send t h v len deadline) = chsend s t h v len deadline"
| "step s (Recv t h v len deadline) = chrecv s t h v len deadline"
| "step s (Done h) = chdone s h"
| "step s (Choose t clauses nclauses deadline) = dill_choose s t clauses nclauses deadline"
| "step s (Expire t) = (Ret 0, timer_fire s t)"

fun exec :: "state \<Rightarrow> call list \<Rightarrow> outcome list \<times> state" where
  "exec s [] = ([], s)"
| "exec s (c # cs) =
     (case step s c of (r, s1) \<Rightarrow>
        (case exec s1 cs of (rs, s2) \<Rightarrow> (r # rs, s2)))"

text \<open>
  The state before any channel exists. In \<open>start\<close> the buffer at address \<open>10\<close> holds
  the byte \<open>7\<close>, the buffer at address \<open>11\<close> the byte \<open>9\<close>, the buffer at address
  \<open>20\<close> the bytes \<open>1, 2, 3, 4\<close>, and every other buffer one zero byte.
\<close>

definition no_channels :: "state \<Rightarrow> bool" where
  "no_channels s \<longleftrightarrow> (\<forall>h. handles s h = None)"

definition start :: state where
  "start = \<lparr>shutdown = False, errno = E0, handles = (\<lambda>h. None),
            memory = (\<lambda>a. if a = 10 then [7] else if a = 11 then [9]
                           else if a = 20 then [1, 2, 3, 4] else [0]),
            timers = (\<lambda>t. None), wakeup = (\<lambda>t. None)\<rparr>"

section \<open>Example states\<close>

text \<open>
  A state with one channel, under handle \<open>0\<close>, and the memory of \<open>start\<close>.
\<close>

definition with_chan :: "dill_chan \<Rightarrow> state" where
  "with_chan c = start\<lparr>handles := (\<lambda>h. if h = 0 then Some (HChan c) else None),
                       memory := (\<lambda>a. if a = 10 then [7] else if a = 11 then [9]
                           else if a = 20 then [1, 2, 3, 4] else [0])\<rparr>"

text \<open>An unbuffered channel of one-byte messages on which coroutine 5 waits to receive.\<close>

definition recv_parked :: dill_chan where
  "recv_parked = \<lparr>sz = 1, in_list = [\<lparr>cr = 5, clid = 0, val = 50\<rparr>], out_list = [],
                  bufsz = 0, items = 0, first = 0, done_flag = False, buf = []\<rparr>"

text \<open>An idle unbuffered channel of four-byte messages.\<close>

definition idle4 :: dill_chan where
  "idle4 = \<lparr>sz = 4, in_list = [], out_list = [], bufsz = 0, items = 0, first = 0,
            done_flag = False, buf = []\<rparr>"

text \<open>
  A full channel of capacity two, holding the messages \<open>1\<close> and \<open>2\<close> in this order,
  with coroutine 6 waiting to send the buffer at address \<open>11\<close>.
\<close>

definition full2 :: dill_chan where
  "full2 = \<lparr>sz = 1, in_list = [], out_list = [\<lparr>cr = 6, clid = 0, val = 11\<rparr>],
            bufsz = 2, items = 2, first = 1, done_flag = False, buf = [[2], [1]]\<rparr>"

text \<open>
  A channel of capacity three holding the messages \<open>97\<close> and \<open>98\<close>, nobody waiting;
  and a channel that is done and empty.
\<close>

definition two_items :: dill_chan where
  "two_items = \<lparr>sz = 1, in_list = [], out_list = [], bufsz = 3, items = 2, first = 0,
                done_flag = False, buf = [[97], [98], [0]]\<rparr>"

definition closed_empty :: dill_chan where
  "closed_empty = \<lparr>sz = 1, in_list = [], out_list = [], bufsz = 3, items = 0, first = 2,
                   done_flag = True, buf = [[97], [98], [0]]\<rparr>"

text \<open>An idle unbuffered channel of one-byte messages.\<close>

definition idle1 :: dill_chan where
  "idle1 = \<lparr>sz = 1, in_list = [], out_list = [], bufsz = 0, items = 0, first = 0,
            done_flag = False, buf = []\<rparr>"

text \<open>
  A state with two channels, under the handles \<open>0\<close> and \<open>1\<close>, and the same memory
  as above.
\<close>

definition with_chans :: "dill_chan \<Rightarrow> dill_chan \<Rightarrow> state" where
  "with_chans c0 c1 =
     start\<lparr>handles := (\<lambda>h. if h = 0 then Some (HChan c0)
                          else if h = 1 then Some (HChan c1) else None),
           memory := (\<lambda>a. if a = 10 then [7] else if a = 11 then [9]
                           else if a = 20 then [1, 2, 3, 4] else [0])\<rparr>"

text \<open>Clauses: a one-byte send on handle \<open>0\<close>, a one-byte receive on handle \<open>1\<close>, and a
  send on handle \<open>0\<close> whose length is \<open>3\<close>.\<close>

definition send0 :: chclause where
  "send0 = \<lparr>cl_op = CHSEND, cl_ch = 0, cl_val = 10, cl_len = 1\<rparr>"

definition recv1 :: chclause where
  "recv1 = \<lparr>cl_op = CHRECV, cl_ch = 1, cl_val = 11, cl_len = 1\<rparr>"

definition send0_len3 :: chclause where
  "send0_len3 = \<lparr>cl_op = CHSEND, cl_ch = 0, cl_val = 10, cl_len = 3\<rparr>"

text \<open>A one-byte receive on handle \<open>0\<close>.\<close>

definition recv0 :: chclause where
  "recv0 = \<lparr>cl_op = CHRECV, cl_ch = 0, cl_val = 11, cl_len = 1\<rparr>"

text \<open>
  Two runs from \<open>start\<close>. In the first, an unbuffered channel of one-byte messages
  is created under handle \<open>0\<close>, coroutine 2 parks in a receive, coroutine 1 sends to it,
  and coroutine 3 parks in a \<open>choose\<close> with one send-clause. In the second, coroutine 1
  calls \<open>choose\<close> with a send-clause and a receive-clause on the new channel.
\<close>

definition run_ok :: "call list" where
  "run_ok = [Create 1 0 True (Inr 0), Recv 2 0 11 1 (-1), Send 1 0 10 1 (-1),
             Choose 3 (Some [send0]) 1 (-1)]"

definition run_bidir :: "call list" where
  "run_bidir = [Create 1 0 True (Inr 0), Choose 1 (Some [send0, recv0]) 2 (-1)]"

text \<open>
  A run on two channels: one of capacity two under handle \<open>0\<close>, which takes two sends,
  refuses a third one that may not wait, and gives the first message back; and one of
  capacity zero under handle \<open>1\<close>, where a send that may not wait is refused.
\<close>

definition run_buffered :: "call list" where
  "run_buffered = [Create 1 2 True (Inr 0), Send 1 0 10 1 0, Send 1 0 11 1 0, Send 1 0 10 1 0,
                   Recv 2 0 12 1 0, Create 1 0 True (Inr 1), Send 1 1 10 1 0]"

section \<open>The ring buffer as a queue\<close>

text \<open>
  The representation invariant of the ring buffer: \<open>bufsz\<close> slots, at most \<open>bufsz\<close>
  of them occupied, \<open>first\<close> an index into the buffer. The capacity is at most
  \<open>2^63\<close>, so that the \<open>size_t\<close> sum \<open>first + items\<close> does not wrap.
\<close>

definition chan_wf :: "dill_chan \<Rightarrow> bool" where
  "chan_wf c \<longleftrightarrow>
     length (buf c) = unat (bufsz c) \<and> items c \<le> bufsz c \<and>
     (first c < bufsz c \<or> bufsz c = 0) \<and> unat (bufsz c) \<le> 2 ^ 63"

text \<open>The buffered messages, oldest first.\<close>

definition queue :: "dill_chan \<Rightarrow> byte list list" where
  "queue c =
     map (\<lambda>i. buf c ! ((unat (first c) + i) mod unat (bufsz c))) [0..<unat (items c)]"

text \<open>
  \<open>n\<close> successive calls of \<open>chrecv\<close> by coroutine \<open>t\<close> with the same arguments.
  For each call the list holds the value it returned and the contents of the caller's
  buffer after it.
\<close>

fun recv_seq ::
  "state \<Rightarrow> task \<Rightarrow> int \<Rightarrow> addr \<Rightarrow> size_t \<Rightarrow> int \<Rightarrow> nat \<Rightarrow> (outcome \<times> byte list) list \<times> state" where
  "recv_seq s t h v len deadline 0 = ([], s)"
| "recv_seq s t h v len deadline (Suc n) =
     (case chrecv s t h v len deadline of (r, s1) \<Rightarrow>
        (case recv_seq s1 t h v len deadline n of (rs, s2) \<Rightarrow> ((r, memory s1 v) # rs, s2)))"

section \<open>Notions used to state the behaviour of the polling loop\<close>

text \<open>
  A clause is well-formed when it passes the checks at the head of the loop body and
  its direction is one of the two cases of the \<open>switch\<close>; it is malformed when its
  handle is a channel and one of these checks fails.
\<close>

definition clause_ok :: "state \<Rightarrow> chclause \<Rightarrow> bool" where
  "clause_ok s k =
     (case handles s (cl_ch k) of
        Some (HChan c) \<Rightarrow>
          cl_len k = sz c \<and> (cl_len k = 0 \<or> cl_val k \<noteq> 0) \<and>
          (cl_op k = CHSEND \<or> cl_op k = CHRECV)
      | _ \<Rightarrow> False)"

definition malformed :: "state \<Rightarrow> chclause \<Rightarrow> bool" where
  "malformed s k =
     (case handles s (cl_ch k) of
        Some (HChan c) \<Rightarrow>
          cl_len k \<noteq> sz c \<or> (cl_len k > 0 \<and> cl_val k = 0) \<or>
          (cl_op k \<noteq> CHSEND \<and> cl_op k \<noteq> CHRECV)
      | _ \<Rightarrow> False)"

text \<open>
  The conditions of the two \<open>if\<close> statements under \<open>case CHSEND\<close> and
  \<open>case CHRECV\<close>: the polling loop acts on a well-formed clause exactly when this
  holds.
\<close>

definition available :: "state \<Rightarrow> chclause \<Rightarrow> bool" where
  "available s k =
     (case handles s (cl_ch k) of
        Some (HChan c) \<Rightarrow>
          (case cl_op k of
             CHSEND \<Rightarrow> items c < bufsz c \<or> in_list c \<noteq> [] \<or> done_flag c
           | CHRECV \<Rightarrow> items c \<noteq> 0 \<or> out_list c \<noteq> [] \<or> done_flag c
           | CHOTHER x \<Rightarrow> False)
      | _ \<Rightarrow> False)"

text \<open>
  Readiness in the words of the specification: a send-clause is ready if the channel is
  not done and a receiver is waiting or the buffer has room; a receive-clause is ready
  if there is a buffered item, or a waiting sender, or the channel is done.
\<close>

definition spec_ready :: "state \<Rightarrow> chclause \<Rightarrow> bool" where
  "spec_ready s k =
     (case handles s (cl_ch k) of
        Some (HChan c) \<Rightarrow>
          (case cl_op k of
             CHSEND \<Rightarrow> \<not> done_flag c \<and> (in_list c \<noteq> [] \<or> items c < bufsz c)
           | CHRECV \<Rightarrow> items c \<noteq> 0 \<or> out_list c \<noteq> [] \<or> done_flag c
           | CHOTHER x \<Rightarrow> False)
      | _ \<Rightarrow> False)"

text \<open>
  The clause as a call of \<open>chsend\<close> or \<open>chrecv\<close> by the same coroutine, and the
  result of \<open>choose\<close> that corresponds to a result of that call: the index \<open>i\<close> in
  place of \<open>0\<close> or \<open>-1\<close>, and \<open>errno\<close> cleared after a success.
\<close>

definition single_op :: "state \<Rightarrow> task \<Rightarrow> chclause \<Rightarrow> int \<Rightarrow> outcome \<times> state" where
  "single_op s t k deadline =
     (case cl_op k of
        CHSEND \<Rightarrow> chsend s t (cl_ch k) (cl_val k) (cl_len k) deadline
      | _ \<Rightarrow> chrecv s t (cl_ch k) (cl_val k) (cl_len k) deadline)"

definition as_choice :: "int \<Rightarrow> outcome \<times> state \<Rightarrow> outcome \<times> state" where
  "as_choice i r =
     (case r of
        (Ret x, s) \<Rightarrow> (Ret i, if x = 0 then s\<lparr>errno := E0\<rparr> else s)
      | (Blocked, s) \<Rightarrow> (Blocked, s)
      | (Fault f, s) \<Rightarrow> (Fault f, s))"

section \<open>Invariants of the reachable states\<close>

text \<open>I1 (waiter exclusion): no channel has both waiter lists non-empty.\<close>

definition waiter_excl :: "state \<Rightarrow> bool" where
  "waiter_excl s \<longleftrightarrow>
     (\<forall>h c. handles s h = Some (HChan c) \<longrightarrow> in_list c = [] \<or> out_list c = [])"

text \<open>The occupancy of every buffer is at most its capacity.\<close>

definition counts_ok :: "state \<Rightarrow> bool" where
  "counts_ok s \<longleftrightarrow> (\<forall>h c. handles s h = Some (HChan c) \<longrightarrow> items c \<le> bufsz c)"

text \<open>
  The clauses of one \<open>choose\<close> call use every channel in one direction only: two
  clauses on the same handle are both CHRECV or both not.
\<close>

definition no_bidir :: "chclause list \<Rightarrow> bool" where
  "no_bidir ks \<longleftrightarrow>
     (\<forall>k \<in> set ks. \<forall>k' \<in> set ks.
        cl_ch k = cl_ch k' \<longrightarrow> (cl_op k = CHRECV) = (cl_op k' = CHRECV))"

text \<open>
  A call does not park clauses of both directions on one channel: it is not a
  \<open>choose\<close>, or the \<open>choose\<close> does not suspend, or its first \<open>nclauses\<close> clauses use
  every channel in one direction only.
\<close>

fun call_ok :: "state \<Rightarrow> call \<Rightarrow> bool" where
  "call_ok s (Choose t clauses nclauses deadline) =
     (fst (dill_choose s t clauses nclauses deadline) \<noteq> Blocked \<or>
      no_bidir (take (nat nclauses) (case clauses of None \<Rightarrow> [] | Some xs \<Rightarrow> xs)))"
| "call_ok s c = True"

fun calls_ok :: "state \<Rightarrow> call list \<Rightarrow> bool" where
  "calls_ok s [] = True"
| "calls_ok s (c # cs) = (call_ok s c \<and> calls_ok (snd (step s c)) cs)"

text \<open>
  The condition under which the second loop of \<open>choose\<close> keeps I1 when it registers
  a clause: the waiter list of the other direction is empty.
\<close>

definition parkable :: "state \<Rightarrow> chclause \<Rightarrow> bool" where
  "parkable s k =
     (case handles s (cl_ch k) of
        Some (HChan c) \<Rightarrow> (if cl_op k = CHRECV then out_list c = [] else in_list c = [])
      | _ \<Rightarrow> False)"

section \<open>Basic facts\<close>

lemma dill_canblock_ok: "\<not> shutdown s \<Longrightarrow> dill_canblock s = (0, s)"
  by (simp add: dill_canblock_def)

lemma hquery_chan: "handles s h = Some (HChan c) \<Longrightarrow> hquery s h = (Some c, s)"
  by (simp add: hquery_def)

lemma waiters_trigger:
  "waiters (dill_trigger s k e) h l = filter (\<lambda>x. cr x \<noteq> cr k) (waiters s h l)"
  by (cases "handles s h"; cases l)
     (auto simp: waiters_def dill_trigger_def get_list_def unlink_def split: hobj.splits)

lemma handles_trigger:
  "handles (dill_trigger s k e) h = map_option (unlink_hobj (cr k)) (handles s h)"
  by (simp add: dill_trigger_def)

lemma waiters_put_chan: "waiters (put_chan s h c) h l = get_list l c"
  by (simp add: waiters_def put_chan_def)

subsection \<open>The draining loop\<close>

declare drain.simps [simp del]

lemma drain_waiters_empty: "waiters (drain s h l) h l = []"
proof (induction s h l rule: drain.induct)
  case (1 s h l)
  show ?case
  proof (cases "waiters s h l")
    case Nil
    then show ?thesis by (simp add: drain.simps [of s h l])
  next
    case (Cons k ks)
    with 1 show ?thesis by (simp add: drain.simps [of s h l])
  qed
qed

lemma drain_waiters_other:
  "waiters (drain s h l) h' l' =
     filter (\<lambda>x. cr x \<notin> cr ` set (waiters s h l)) (waiters s h' l')"
proof (induction s h l rule: drain.induct)
  case (1 s h l)
  show ?case
  proof (cases "waiters s h l")
    case Nil
    then show ?thesis by (simp add: drain.simps [of s h l])
  next
    case (Cons k ks)
    have "waiters (drain s h l) h' l' = waiters (drain (dill_trigger s k EPIPE) h l) h' l'"
      using Cons by (simp add: drain.simps [of s h l])
    also have "\<dots> = filter (\<lambda>x. cr x \<notin> cr ` set (filter (\<lambda>x. cr x \<noteq> cr k) (k # ks)))
                      (filter (\<lambda>x. cr x \<noteq> cr k) (waiters s h' l'))"
      using 1 [OF Cons] by (simp add: waiters_trigger Cons)
    also have "\<dots> = filter (\<lambda>x. cr x \<notin> cr ` set (k # ks)) (waiters s h' l')"
      by (auto intro!: filter_cong)
    finally show ?thesis by (simp add: Cons)
  qed
qed

lemma drain_chan:
  "handles s h' = Some (HChan c) \<Longrightarrow>
   \<exists>c'. handles (drain s h l) h' = Some (HChan c') \<and> sz c' = sz c \<and> bufsz c' = bufsz c \<and>
        items c' = items c \<and> first c' = first c \<and> done_flag c' = done_flag c \<and> buf c' = buf c"
proof (induction s h l arbitrary: c rule: drain.induct)
  case (1 s h l)
  show ?case
  proof (cases "waiters s h l")
    case Nil
    then show ?thesis using "1.prems" by (simp add: drain.simps [of s h l])
  next
    case (Cons k ks)
    have "handles (dill_trigger s k EPIPE) h' = Some (HChan (unlink (cr k) c))"
      using "1.prems" by (simp add: handles_trigger)
    from "1.IH" [OF Cons this] show ?thesis
      using Cons by (simp add: unlink_def drain.simps [of s h l])
  qed
qed

lemma drain_wakeup_keep:
  "\<exists>i. wakeup s t = Some (i, EPIPE) \<Longrightarrow> \<exists>j. wakeup (drain s h l) t = Some (j, EPIPE)"
proof (induction s h l rule: drain.induct)
  case (1 s h l)
  show ?case
  proof (cases "waiters s h l")
    case Nil
    then show ?thesis using "1.prems" by (simp add: drain.simps [of s h l])
  next
    case (Cons k ks)
    have "\<exists>i. wakeup (dill_trigger s k EPIPE) t = Some (i, EPIPE)"
      using "1.prems" by (simp add: dill_trigger_def)
    from "1.IH" [OF Cons this] show ?thesis using Cons by (simp add: drain.simps [of s h l])
  qed
qed

lemma drain_wakeup:
  "x \<in> set (waiters s h l) \<Longrightarrow> \<exists>j. wakeup (drain s h l) (cr x) = Some (j, EPIPE)"
proof (induction s h l rule: drain.induct)
  case (1 s h l)
  show ?case
  proof (cases "waiters s h l")
    case Nil
    then show ?thesis using "1.prems" by simp
  next
    case (Cons k ks)
    show ?thesis
    proof (cases "cr x = cr k")
      case True
      have "\<exists>i. wakeup (dill_trigger s k EPIPE) (cr x) = Some (i, EPIPE)"
        using True by (simp add: dill_trigger_def)
      from drain_wakeup_keep [OF this] show ?thesis
        using Cons by (simp add: drain.simps [of s h l])
    next
      case False
      then have "x \<in> set (waiters (dill_trigger s k EPIPE) h l)"
        using "1.prems" by (simp add: waiters_trigger)
      from "1.IH" [OF Cons this] show ?thesis
        using Cons by (simp add: drain.simps [of s h l])
    qed
  qed
qed

lemma drain_frame:
  "errno (drain s h l) = errno s \<and> memory (drain s h l) = memory s \<and>
   shutdown (drain s h l) = shutdown s"
proof (induction s h l rule: drain.induct)
  case (1 s h l)
  show ?case
  proof (cases "waiters s h l")
    case Nil
    then show ?thesis by (simp add: drain.simps [of s h l])
  next
    case (Cons k ks)
    with 1 show ?thesis by (simp add: dill_trigger_def drain.simps [of s h l])
  qed
qed

subsection \<open>Ring buffer arithmetic\<close>

lemma mod_shift_neq:
  fixes f i k n :: nat
  assumes "i < k" "k < n"
  shows "(f + i) mod n \<noteq> (f + k) mod n"
proof
  assume "(f + i) mod n = (f + k) mod n"
  then have "(f + k) mod n = (f + i) mod n" by simp
  then have "n dvd (f + k) - (f + i)"
    using assms by (simp add: mod_eq_dvd_iff_nat)
  then have "n dvd k - i" by simp
  then have "n \<le> k - i" using assms by (intro dvd_imp_le) simp_all
  then show False using assms by simp
qed

lemma chan_wf_nat:
  "chan_wf c \<Longrightarrow> length (buf c) = unat (bufsz c) \<and> unat (items c) \<le> unat (bufsz c) \<and>
     (unat (first c) < unat (bufsz c) \<or> unat (bufsz c) = 0) \<and> unat (bufsz c) \<le> 2 ^ 63"
  by (auto simp: chan_wf_def word_le_nat_alt word_less_nat_alt)

lemma unat_nonzero: "(w :: size_t) \<noteq> 0 \<Longrightarrow> 0 < unat w"
  by (simp add: unat_gt_0)

lemma pos_nowrap:
  assumes "chan_wf c" "bufsz c \<noteq> 0"
  shows "unat ((first c + items c) mod bufsz c) =
           (unat (first c) + unat (items c)) mod unat (bufsz c)"
proof -
  from chan_wf_nat [OF assms(1)] unat_nonzero [OF assms(2)]
  have "unat (first c) + unat (items c) < 2 ^ 64" by simp
  then have "unat (first c + items c) = unat (first c) + unat (items c)"
    by (simp add: unat_add_lem [THEN iffD1])
  then show ?thesis by (simp add: unat_mod)
qed

lemma first_succ:
  assumes "chan_wf c" "bufsz c \<noteq> 0"
  shows "unat ((first c + 1) mod bufsz c) = (unat (first c) + 1) mod unat (bufsz c)"
proof -
  from chan_wf_nat [OF assms(1)] unat_nonzero [OF assms(2)]
  have "unat (first c) + unat (1 :: size_t) < 2 ^ 64" by simp
  then have "unat (first c + 1) = unat (first c) + 1"
    by (simp add: unat_add_lem [THEN iffD1])
  then show ?thesis by (simp add: unat_mod)
qed

lemma items_succ:
  assumes "chan_wf c" "items c < bufsz c"
  shows "unat (items c + 1) = unat (items c) + 1"
proof -
  have "unat (items c) < unat (bufsz c)" using assms(2) by (simp add: word_less_nat_alt)
  moreover have "unat (bufsz c) \<le> 2 ^ 63" using chan_wf_nat [OF assms(1)] by simp
  ultimately have "unat (items c) + unat (1 :: size_t) < 2 ^ 64" by simp
  then show ?thesis by (simp add: unat_add_lem [THEN iffD1])
qed

lemma items_pred: "items c \<noteq> 0 \<Longrightarrow> unat (items c - 1) = unat (items c) - 1"
  by (simp add: unat_minus_one)

text \<open>Writing a message behind the last buffered one appends it to the queue.\<close>

lemma queue_enqueue:
  fixes c :: dill_chan and x :: "byte list"
  assumes wf: "chan_wf c" and room: "items c < bufsz c"
  defines "pos \<equiv> (first c + items c) mod bufsz c"
  defines "c' \<equiv> c\<lparr>buf := (buf c)[unat pos := x], items := items c + 1\<rparr>"
  shows "queue c' = queue c @ [x]" and "chan_wf c'"
proof -
  have nz: "bufsz c \<noteq> 0" using room by auto
  let ?n = "unat (bufsz c)" and ?f = "unat (first c)" and ?k = "unat (items c)"
  have k: "?k < ?n" using room by (simp add: word_less_nat_alt)
  have len: "length (buf c) = ?n" using chan_wf_nat [OF wf] by simp
  have p: "unat pos = (?f + ?k) mod ?n" by (simp add: pos_def pos_nowrap [OF wf nz])
  have pl: "unat pos < length (buf c)" using k by (simp add: p len)
  have k1: "unat (items c + 1) = ?k + 1" by (rule items_succ [OF wf room])
  have old: "(buf c)[unat pos := x] ! ((?f + i) mod ?n) = buf c ! ((?f + i) mod ?n)"
    if "i < ?k" for i
    using mod_shift_neq [OF that k, of ?f] by (simp add: p)
  have new: "(buf c)[unat pos := x] ! ((?f + ?k) mod ?n) = x"
    using pl by (simp add: p)
  have "queue c' = map (\<lambda>i. (buf c)[unat pos := x] ! ((?f + i) mod ?n)) [0..<?k + 1]"
    by (simp add: queue_def c'_def k1)
  also have "\<dots> = map (\<lambda>i. (buf c)[unat pos := x] ! ((?f + i) mod ?n)) [0..<?k] @ [x]"
    using new by simp
  also have "map (\<lambda>i. (buf c)[unat pos := x] ! ((?f + i) mod ?n)) [0..<?k] = queue c"
    unfolding queue_def by (rule map_cong) (simp_all add: old)
  finally show "queue c' = queue c @ [x]" .
  have "items c + 1 \<le> bufsz c"
    using k k1 by (simp add: word_le_nat_alt)
  then show "chan_wf c'"
    using wf by (simp add: chan_wf_def c'_def)
qed

text \<open>Reading the first slot takes the head of the queue.\<close>

lemma queue_dequeue:
  assumes wf: "chan_wf c" and ne: "items c \<noteq> 0"
  defines "c' \<equiv> c\<lparr>first := (first c + 1) mod bufsz c, items := items c - 1\<rparr>"
  shows "queue c = (buf c ! unat (first c)) # queue c'" and "chan_wf c'" and "bufsz c \<noteq> 0"
proof -
  let ?n = "unat (bufsz c)" and ?f = "unat (first c)" and ?k = "unat (items c)"
  have kpos: "0 < ?k" using ne by (simp add: unat_gt_0)
  have kn: "?k \<le> ?n" using chan_wf_nat [OF wf] by simp
  then have "0 < ?n" using kpos by simp
  then show nz: "bufsz c \<noteq> 0" by (auto simp: unat_gt_0)
  have f: "?f < ?n" using chan_wf_nat [OF wf] \<open>0 < ?n\<close> by auto
  have f1: "unat ((first c + 1) mod bufsz c) = (?f + 1) mod ?n"
    by (rule first_succ [OF wf nz])
  have k1: "unat (items c - 1) = ?k - 1" by (rule items_pred [OF ne])
  have "[0..<?k] = 0 # map Suc [0..<?k - 1]"
    using kpos by (metis Suc_pred' map_Suc_upt upt_conv_Cons)
  then have "queue c = buf c ! (?f mod ?n) # map (\<lambda>i. buf c ! ((?f + Suc i) mod ?n)) [0..<?k - 1]"
    by (simp add: queue_def comp_def)
  also have "?f mod ?n = ?f" using f by simp
  also have "map (\<lambda>i. buf c ! ((?f + Suc i) mod ?n)) [0..<?k - 1] = queue c'"
    by (simp add: queue_def c'_def f1 k1 mod_add_left_eq)
  finally show "queue c = (buf c ! unat (first c)) # queue c'" .
  have "unat ((first c + 1) mod bufsz c) < ?n"
    using \<open>0 < ?n\<close> by (simp add: f1)
  moreover have "unat (items c - 1) \<le> ?n" using kn by (simp add: k1)
  ultimately show "chan_wf c'"
    using wf by (simp add: chan_wf_def c'_def word_le_nat_alt word_less_nat_alt)
qed

lemma size_mod_nz: "b \<noteq> 0 \<Longrightarrow> size_mod a b = Some (a mod b)"
  by (simp add: size_mod_def)

subsection \<open>Receiving from a channel without waiting senders\<close>

lemma chrecv_pop:
  assumes "\<not> shutdown s" "handles s h = Some (HChan c)" "len = sz c" "items c \<noteq> 0"
    "bufsz c \<noteq> 0" "out_list c = []"
  shows "chrecv s t h v len deadline =
           (Ret 0, put_chan (s\<lparr>memory := (memory s)
                      (v := memcpy (memory s v) (buf c ! unat (first c)) len)\<rparr>) h
                     (c\<lparr>first := (first c + 1) mod bufsz c, items := items c - 1\<rparr>))"
  using assms by (simp add: chrecv_def dill_canblock_ok hquery_chan size_mod_nz)

lemma chrecv_drained:
  assumes "\<not> shutdown s" "handles s h = Some (HChan c)" "len = sz c" "items c = 0"
    "out_list c = []" "done_flag c"
  shows "chrecv s t h v len deadline = (Ret (-1), s\<lparr>errno := EPIPE\<rparr>)"
  using assms by (simp add: chrecv_def dill_canblock_ok hquery_chan)

lemma memcpy_exact: "length src = unat n \<Longrightarrow> length dst = unat n \<Longrightarrow> memcpy dst src n = src"
  by (simp add: memcpy_def)

lemma recv_seq_drain:
  assumes "\<not> shutdown s" "handles s h = Some (HChan c)" "len = sz c" "chan_wf c"
    "out_list c = []" "\<forall>x \<in> set (queue c). length x = unat len"
    "length (memory s v) = unat len" "n = unat (items c)"
  shows "\<exists>s' c'. recv_seq s t h v len deadline n = (map (\<lambda>x. (Ret 0, x)) (queue c), s') \<and>
           handles s' h = Some (HChan c') \<and> items c' = 0 \<and> out_list c' = [] \<and>
           done_flag c' = done_flag c \<and> sz c' = sz c \<and> \<not> shutdown s'"
  using assms
proof (induction n arbitrary: s c)
  case 0
  then have "items c = 0" by (simp add: unat_eq_0)
  then have "queue c = []" by (simp add: queue_def)
  with 0 \<open>items c = 0\<close> show ?case by simp
next
  case (Suc n)
  then have ne: "items c \<noteq> 0" by auto
  define c1 where "c1 = c\<lparr>first := (first c + 1) mod bufsz c, items := items c - 1\<rparr>"
  define s1 where "s1 = put_chan (s\<lparr>memory := (memory s)
                      (v := memcpy (memory s v) (buf c ! unat (first c)) len)\<rparr>) h c1"
  have q: "queue c = (buf c ! unat (first c)) # queue c1" and wf1: "chan_wf c1"
    and nz: "bufsz c \<noteq> 0"
    using queue_dequeue [OF Suc.prems(4) ne] by (simp_all add: c1_def)
  have r: "chrecv s t h v len deadline = (Ret 0, s1)"
    using chrecv_pop [OF Suc.prems(1,2,3) ne nz Suc.prems(5)] by (simp add: s1_def c1_def)
  have sl: "length (buf c ! unat (first c)) = unat len"
    using Suc.prems(6) q by simp
  have m1: "memory s1 v = buf c ! unat (first c)"
    using sl Suc.prems(7) by (simp add: s1_def put_chan_def memcpy_exact)
  have "\<exists>s' c'. recv_seq s1 t h v len deadline n = (map (\<lambda>x. (Ret 0, x)) (queue c1), s') \<and>
           handles s' h = Some (HChan c') \<and> items c' = 0 \<and> out_list c' = [] \<and>
           done_flag c' = done_flag c1 \<and> sz c' = sz c1 \<and> \<not> shutdown s'"
  proof (rule Suc.IH)
    show "\<not> shutdown s1" using Suc.prems(1) by (simp add: s1_def put_chan_def)
    show "handles s1 h = Some (HChan c1)" by (simp add: s1_def put_chan_def)
    show "len = sz c1" using Suc.prems(3) by (simp add: c1_def)
    show "chan_wf c1" by (rule wf1)
    show "out_list c1 = []" using Suc.prems(5) by (simp add: c1_def)
    show "\<forall>x \<in> set (queue c1). length x = unat len" using Suc.prems(6) q by simp
    show "length (memory s1 v) = unat len" using m1 sl by simp
    show "n = unat (items c1)" using Suc.prems(8) items_pred [OF ne] by (simp add: c1_def)
  qed
  then obtain s' c' where
    "recv_seq s1 t h v len deadline n = (map (\<lambda>x. (Ret 0, x)) (queue c1), s')"
    "handles s' h = Some (HChan c')" "items c' = 0" "out_list c' = []"
    "done_flag c' = done_flag c1" "sz c' = sz c1" "\<not> shutdown s'"
    by blast
  then show ?case
    using r m1 q by (simp add: c1_def)
qed

lemma chrecv_epipe_only:
  assumes "handles s h = Some (HChan c)" "len = sz c"
    "chrecv s t h v len deadline = (Ret (-1), s1)" "errno s1 = EPIPE"
  shows "done_flag c \<and> items c = 0"
  using assms
  by (auto simp: chrecv_def dill_canblock_def hquery_def Let_def
           split: if_splits option.splits)

subsection \<open>The effect of chdone\<close>

lemma chdone_effect:
  assumes hc: "handles s h = Some (HChan c)" and nd: "\<not> done_flag c"
  shows "\<exists>s' c'. chdone s h = (Ret 0, s') \<and> handles s' h = Some (HChan c') \<and>
               done_flag c' \<and> in_list c' = [] \<and> out_list c' = [] \<and>
               sz c' = sz c \<and> bufsz c' = bufsz c \<and> items c' = items c \<and>
               first c' = first c \<and> buf c' = buf c \<and>
               (\<forall>x \<in> set (in_list c) \<union> set (out_list c).
                   \<exists>i. wakeup s' (cr x) = Some (i, EPIPE)) \<and>
               memory s' = memory s \<and> shutdown s' = shutdown s \<and> errno s' = errno s"
proof -
  define s1 where "s1 = put_chan s h (c\<lparr>done_flag := True\<rparr>)"
  define s2 where "s2 = drain s1 h ChIn"
  define s3 where "s3 = drain s2 h ChOut"
  have r: "chdone s h = (Ret 0, s3)"
    using hc nd by (simp add: chdone_def hquery_chan s1_def s2_def s3_def)
  have h1: "handles s1 h = Some (HChan (c\<lparr>done_flag := True\<rparr>))"
    by (simp add: s1_def put_chan_def)
  from drain_chan [OF h1, of h ChIn] obtain c2 where
    c2: "handles s2 h = Some (HChan c2)" "sz c2 = sz c" "bufsz c2 = bufsz c"
        "items c2 = items c" "first c2 = first c" "done_flag c2" "buf c2 = buf c"
    by (auto simp: s2_def)
  from drain_chan [OF c2(1), of h ChOut] c2 obtain c3 where
    c3: "handles s3 h = Some (HChan c3)" "sz c3 = sz c" "bufsz c3 = bufsz c"
        "items c3 = items c" "first c3 = first c" "done_flag c3" "buf c3 = buf c"
    by (auto simp: s3_def)
  have w1: "waiters s1 h ChIn = in_list c" "waiters s1 h ChOut = out_list c"
    by (simp_all add: s1_def waiters_put_chan get_list_def)
  have "waiters s3 h ChOut = []"
    by (simp add: s3_def drain_waiters_empty)
  then have out3: "out_list c3 = []"
    using c3(1) by (simp add: waiters_def get_list_def)
  have "waiters s2 h ChIn = []"
    by (simp add: s2_def drain_waiters_empty)
  then have "waiters s3 h ChIn = []"
    by (simp add: s3_def drain_waiters_other)
  then have in3: "in_list c3 = []"
    using c3(1) by (simp add: waiters_def get_list_def)
  have wk: "\<exists>i. wakeup s3 (cr x) = Some (i, EPIPE)"
    if x: "x \<in> set (in_list c) \<union> set (out_list c)" for x
  proof (cases "cr x \<in> cr ` set (in_list c)")
    case True
    then obtain y where y: "y \<in> set (waiters s1 h ChIn)" "cr y = cr x"
      by (auto simp: w1)
    from drain_wakeup [OF y(1)] have "\<exists>i. wakeup s2 (cr x) = Some (i, EPIPE)"
      by (simp add: s2_def y(2))
    from drain_wakeup_keep [OF this] show ?thesis by (simp add: s3_def)
  next
    case False
    then have "x \<in> set (out_list c)" using x by auto
    then have "x \<in> set (waiters s2 h ChOut)"
      using False by (simp add: s2_def drain_waiters_other w1)
    from drain_wakeup [OF this] show ?thesis by (simp add: s3_def)
  qed
  have fr: "memory s3 = memory s" "shutdown s3 = shutdown s" "errno s3 = errno s"
    by (simp_all add: s3_def s2_def s1_def drain_frame put_chan_def)
  show ?thesis
    using r c3 in3 out3 wk fr by blast
qed

subsection \<open>A send and the receive that consumes it\<close>

lemma chsend_enqueue:
  assumes "\<not> shutdown s" "handles s h = Some (HChan c)" "len = sz c" "\<not> done_flag c"
    "in_list c = []" "items c < bufsz c"
  shows "chsend s t h v len deadline =
           (Ret 0, put_chan s h
              (c\<lparr>buf := (buf c)[unat ((first c + items c) mod bufsz c) :=
                          memcpy (buf c ! unat ((first c + items c) mod bufsz c)) (memory s v) len],
                 items := items c + 1\<rparr>))"
proof -
  have "bufsz c \<noteq> 0" using assms(6) by auto
  then show ?thesis
    using assms by (simp add: chsend_def dill_canblock_ok hquery_chan size_mod_nz)
qed

lemma queue_subset:
  assumes "chan_wf c"
  shows "set (queue c) \<subseteq> set (buf c)"
proof (cases "bufsz c = 0")
  case True
  then have "items c = 0" using assms by (simp add: chan_wf_def)
  then show ?thesis by (simp add: queue_def)
next
  case False
  then have "0 < unat (bufsz c)" by (simp add: unat_gt_0)
  moreover have "length (buf c) = unat (bufsz c)" using chan_wf_nat [OF assms] by simp
  ultimately show ?thesis by (auto simp: queue_def)
qed

lemma roundtrip_buffered:
  assumes ns: "\<not> shutdown s" and hc: "handles s h = Some (HChan c)" and len: "len = sz c"
    and nd: "\<not> done_flag c" and wf: "chan_wf c" and il: "in_list c = []"
    and ol: "out_list c = []" and room: "items c < bufsz c"
    and slots: "\<forall>x \<in> set (buf c). length x = unat len"
    and lp: "length (memory s p) = unat len" and lq: "length (memory s q) = unat len"
  shows "\<exists>s1 s2. chsend s t1 h p len d1 = (Ret 0, s1) \<and>
           recv_seq s1 t2 h q len d2 (unat (items c) + 1) =
             (map (\<lambda>x. (Ret 0, x)) (queue c @ [memory s p]), s2)"
proof -
  define pos where "pos = (first c + items c) mod bufsz c"
  define c1 where "c1 = c\<lparr>buf := (buf c)[unat pos := memory s p], items := items c + 1\<rparr>"
  have nz: "bufsz c \<noteq> 0" using room by auto
  have "unat pos < length (buf c)"
    using chan_wf_nat [OF wf] nz by (simp add: pos_def pos_nowrap [OF wf nz] unat_gt_0)
  then have "length (buf c ! unat pos) = unat len" using slots by simp
  then have x: "memcpy (buf c ! unat pos) (memory s p) len = memory s p"
    using lp by (simp add: memcpy_exact)
  have r: "chsend s t1 h p len d1 = (Ret 0, put_chan s h c1)"
    using chsend_enqueue [OF ns hc len nd il room, of t1 p d1] x
    by (simp add: c1_def pos_def)
  have q1: "queue c1 = queue c @ [memory s p]" and wf1: "chan_wf c1"
    using queue_enqueue [OF wf room, of "memory s p"] by (simp_all add: c1_def pos_def)
  have ql: "\<forall>x \<in> set (queue c1). length x = unat len"
    using queue_subset [OF wf] slots lp by (auto simp: q1)
  have n: "unat (items c) + 1 = unat (items c1)"
    using items_succ [OF wf room] by (simp add: c1_def)
  have "\<exists>s' c'. recv_seq (put_chan s h c1) t2 h q len d2 (unat (items c) + 1) =
             (map (\<lambda>x. (Ret 0, x)) (queue c1), s') \<and>
           handles s' h = Some (HChan c') \<and> items c' = 0 \<and> out_list c' = [] \<and>
           done_flag c' = done_flag c1 \<and> sz c' = sz c1 \<and> \<not> shutdown s'"
  proof (rule recv_seq_drain)
    show "\<not> shutdown (put_chan s h c1)" using ns by (simp add: put_chan_def)
    show "handles (put_chan s h c1) h = Some (HChan c1)" by (simp add: put_chan_def)
    show "len = sz c1" using len by (simp add: c1_def)
    show "chan_wf c1" by (rule wf1)
    show "out_list c1 = []" using ol by (simp add: c1_def)
    show "\<forall>x \<in> set (queue c1). length x = unat len" by (rule ql)
    show "length (memory (put_chan s h c1) q) = unat len" using lq by (simp add: put_chan_def)
    show "unat (items c) + 1 = unat (items c1)" by (rule n)
  qed
  then obtain s2 where
    "recv_seq (put_chan s h c1) t2 h q len d2 (unat (items c) + 1) =
       (map (\<lambda>x. (Ret 0, x)) (queue c1), s2)"
    by blast
  with r q1 show ?thesis by metis
qed

lemma roundtrip_rendezvous:
  assumes ns: "\<not> shutdown s" and hc: "handles s h = Some (HChan c)" and len: "len = sz c"
    and nd: "\<not> done_flag c" and il: "in_list c = []" and ol: "out_list c = []"
    and unb: "bufsz c = 0" and it: "items c = 0" and d1: "d1 \<noteq> 0"
    and lp: "length (memory s p) = unat len" and lq: "length (memory s q) = unat len"
  shows "\<exists>s1 s2 s3. chsend s t1 h p len d1 = (Blocked, s1) \<and>
           chrecv s1 t2 h q len d2 = (Ret 0, s2) \<and> memory s2 q = memory s p \<and>
           chsend_resume s2 t1 = Some (0, s3)"
  using assms
  by (simp add: chsend_def chrecv_def dill_canblock_def hquery_def dill_waitfor_def
        dill_timer_def put_chan_def list_insert_def dill_trigger_def chsend_resume_def
        dill_wait_def memcpy_exact)

lemma roundtrip_handoff:
  assumes ns: "\<not> shutdown s" and hc: "handles s h = Some (HChan c)" and len: "len = sz c"
    and nd: "\<not> done_flag c" and il: "in_list c = []" and ol: "out_list c = []"
    and it: "items c = 0" and d2: "d2 \<noteq> 0"
    and lp: "length (memory s p) = unat len" and lq: "length (memory s q) = unat len"
  shows "\<exists>s1 s2 s3. chrecv s t2 h q len d2 = (Blocked, s1) \<and>
           chsend s1 t1 h p len d1 = (Ret 0, s2) \<and> memory s2 q = memory s p \<and>
           chrecv_resume s2 t2 = Some (0, s3)"
  using assms
  by (simp add: chsend_def chrecv_def dill_canblock_def hquery_def dill_waitfor_def
        dill_timer_def put_chan_def list_insert_def dill_trigger_def chrecv_resume_def
        dill_wait_def memcpy_exact)

subsection \<open>The polling loop\<close>

lemma poll_skip:
  "m < length ks \<Longrightarrow> a + int m < n \<Longrightarrow>
   (\<forall>j<m. poll_clause s (a + int j) (ks ! j) = None) \<Longrightarrow>
   poll s n a ks =
     (case poll_clause s (a + int m) (ks ! m) of
        Some r \<Rightarrow> Some r
      | None \<Rightarrow> poll s n (a + int m + 1) (drop (Suc m) ks))"
proof (induction ks arbitrary: a m)
  case Nil
  then show ?case by simp
next
  case (Cons k ks)
  show ?case
  proof (cases m)
    case 0
    with Cons.prems show ?thesis by (simp split: option.split)
  next
    case (Suc m')
    have an: "a \<noteq> n" using Cons.prems(2) by simp
    have k0: "poll_clause s a k = None" using Cons.prems(3) Suc by force
    have "poll s n (a + 1) ks =
            (case poll_clause s (a + 1 + int m') (ks ! m') of
               Some r \<Rightarrow> Some r
             | None \<Rightarrow> poll s n (a + 1 + int m' + 1) (drop (Suc m') ks))"
    proof (rule Cons.IH)
      show "m' < length ks" using Cons.prems(1) Suc by simp
      show "a + 1 + int m' < n" using Cons.prems(2) Suc by simp
      show "\<forall>j<m'. poll_clause s (a + 1 + int j) (ks ! j) = None"
      proof (intro allI impI)
        fix j assume "j < m'"
        then have "poll_clause s (a + int (Suc j)) ((k # ks) ! Suc j) = None"
          using Cons.prems(3) Suc by (metis Suc_less_eq)
        then show "poll_clause s (a + 1 + int j) (ks ! j) = None"
          by (simp add: add.assoc)
      qed
    qed
    then show ?thesis using an k0 Suc by (simp add: add.assoc split: option.split)
  qed
qed

lemma poll_clause_skip:
  "clause_ok s k \<Longrightarrow> \<not> available s k \<Longrightarrow> poll_clause s i k = None"
  by (auto simp: clause_ok_def available_def poll_clause_def hquery_def
           split: option.splits hobj.splits chop.splits)

lemma poll_clause_malformed:
  "malformed s k \<Longrightarrow> poll_clause s i k = Some (Ret i, s\<lparr>errno := EINVAL\<rparr>)"
  by (auto simp: malformed_def poll_clause_def hquery_def
           split: option.splits hobj.splits chop.splits)

lemma poll_clause_send:
  assumes "\<not> shutdown s" "handles s (cl_ch k) = Some (HChan c)" "clause_ok s k"
    "available s k" "cl_op k = CHSEND"
  shows "poll_clause s i k =
           Some (as_choice i (chsend s t (cl_ch k) (cl_val k) (cl_len k) deadline))"
  using assms
  by (auto simp: clause_ok_def available_def poll_clause_def chsend_def dill_canblock_def
        hquery_def as_choice_def size_mod_def Let_def)

lemma poll_clause_recv:
  assumes "\<not> shutdown s" "handles s (cl_ch k) = Some (HChan c)" "clause_ok s k"
    "available s k" "cl_op k = CHRECV" "done_flag c \<longrightarrow> out_list c = []"
  shows "poll_clause s i k =
           Some (as_choice i (chrecv s t (cl_ch k) (cl_val k) (cl_len k) deadline))"
  using assms
  by (auto simp: clause_ok_def available_def poll_clause_def chrecv_def dill_canblock_def
        hquery_def as_choice_def size_mod_def Let_def)

lemma choose_polls:
  assumes ns: "\<not> shutdown s" and il: "i < length ks" and inn: "int i < n"
    and before: "\<forall>j<i. clause_ok s (ks ! j) \<and> \<not> available s (ks ! j)"
  shows "dill_choose s t (Some ks) n deadline =
           (case poll_clause s (int i) (ks ! i) of
              Some r \<Rightarrow> r
            | None \<Rightarrow>
                (case poll s n (int i + 1) (drop (Suc i) ks) of
                   Some r \<Rightarrow> r
                 | None \<Rightarrow>
                     if deadline = 0 then (Ret (-1), s\<lparr>errno := ETIMEDOUT\<rparr>)
                     else (case park_loop s t n 0 ks of
                             Inl f \<Rightarrow> (Fault f, s)
                           | Inr s2 \<Rightarrow> (Blocked, dill_timer s2 t n deadline))))"
proof -
  have "\<forall>j<i. poll_clause s (0 + int j) (ks ! j) = None"
    using before by (simp add: poll_clause_skip)
  from poll_skip [OF il _ this, of n] inn
  have "poll s n 0 ks =
          (case poll_clause s (int i) (ks ! i) of
             Some r \<Rightarrow> Some r
           | None \<Rightarrow> poll s n (int i + 1) (drop (Suc i) ks))"
    by (simp split: option.split)
  then show ?thesis
    using ns inn by (simp add: dill_choose_def dill_canblock_ok split: option.split)
qed

section \<open>The length check of chsend and chrecv\<close>

text \<open>
  Claim C1 says that a send or a receive whose length differs from the element size of
  the channel fails with EINVAL. On the idle channel of four-byte messages, with
  \<open>errno\<close> equal to \<open>0\<close> before the call, \<open>chsend\<close> and \<open>chrecv\<close> on the four-byte
  buffer at address \<open>20\<close> with length \<open>3\<close> return \<open>-1\<close> and leave the whole state as it was: \<open>errno\<close> is still \<open>0\<close>, not
  EINVAL.
\<close>

theorem length_check_leaves_errno:
  "chsend (with_chan idle4) 1 0 20 3 (-1) = (Ret (-1), with_chan idle4) \<and>
   chrecv (with_chan idle4) 1 0 20 3 (-1) = (Ret (-1), with_chan idle4) \<and>
   sz idle4 = 4 \<and> errno (with_chan idle4) = E0"
  by (simp add: chsend_def chrecv_def dill_canblock_def hquery_def with_chan_def
        idle4_def start_def)

section \<open>Direct hand-off\<close>

text \<open>
  Claim C8 (zero-copy hand-off, P6): when the waiter list \<open>in\<close> is not empty at the
  entry of \<open>chsend\<close>, and the call passes the shutdown, handle, length and done
  checks, the payload is copied into the buffer of the first waiting receiver, that
  receiver is triggered with \<open>0\<close>, \<open>chsend\<close> returns \<open>0\<close>, and the number of buffered
  items, the index of the first item and the buffer contents are as before.
\<close>

theorem chsend_handoff:
  assumes "\<not> shutdown s" and "handles s h = Some (HChan c)" and "len = sz c"
    and "\<not> done_flag c" and "in_list c = r # rs"
  shows "\<exists>s' c'. chsend s t h v len deadline = (Ret 0, s') \<and>
           memory s' = (memory s)(val r := memcpy (memory s (val r)) (memory s v) len) \<and>
           wakeup s' (cr r) = Some (clid r, E0) \<and>
           handles s' h = Some (HChan c') \<and>
           items c' = items c \<and> first c' = first c \<and> buf c' = buf c \<and>
           bufsz c' = bufsz c \<and> sz c' = sz c \<and>
           in_list c' = filter (\<lambda>x. cr x \<noteq> cr r) rs"
  using assms
  by (simp add: chsend_def dill_canblock_ok hquery_chan dill_trigger_def unlink_def)

theorem chsend_handoff_witness:
  "\<not> shutdown (with_chan recv_parked) \<and>
   handles (with_chan recv_parked) 0 = Some (HChan recv_parked) \<and>
   (1 :: size_t) = sz recv_parked \<and> \<not> done_flag recv_parked \<and>
   in_list recv_parked = [\<lparr>cr = 5, clid = 0, val = 50\<rparr>] \<and>
   (\<exists>s' c'. chsend (with_chan recv_parked) 1 0 10 1 (-1) = (Ret 0, s') \<and>
      memory s' 50 = [7] \<and> wakeup s' 5 = Some (0, E0) \<and>
      handles s' 0 = Some (HChan c') \<and> items c' = 0 \<and> first c' = 0 \<and> buf c' = [] \<and>
      in_list c' = [])"
proof -
  have a: "\<not> shutdown (with_chan recv_parked)"
    by (simp add: with_chan_def start_def)
  have b: "handles (with_chan recv_parked) 0 = Some (HChan recv_parked)"
    by (simp add: with_chan_def)
  have c: "(1 :: size_t) = sz recv_parked" and d: "\<not> done_flag recv_parked"
    and e: "in_list recv_parked = [\<lparr>cr = 5, clid = 0, val = 50\<rparr>]"
    by (simp_all add: recv_parked_def)
  have m: "memcpy (memory (with_chan recv_parked) 50) (memory (with_chan recv_parked) 10) 1 = [7]"
    by (simp add: with_chan_def memcpy_def)
  have i: "items recv_parked = 0" "first recv_parked = 0" "buf recv_parked = []"
    by (simp_all add: recv_parked_def)
  from chsend_handoff [OF a b c d e, of 1 10 "-1"] m i
  have "\<exists>s' c'. chsend (with_chan recv_parked) 1 0 10 1 (-1) = (Ret 0, s') \<and>
      memory s' 50 = [7] \<and> wakeup s' 5 = Some (0, E0) \<and>
      handles s' 0 = Some (HChan c') \<and> items c' = 0 \<and> first c' = 0 \<and> buf c' = [] \<and>
      in_list c' = []"
    by auto
  with a b c d e show ?thesis by blast
qed

section \<open>chdone\<close>

text \<open>
  Claim C5: on a channel whose done flag is not set, \<open>chdone\<close> sets the flag, returns
  \<open>0\<close>, and leaves both waiter lists empty; the coroutine of every clause that was
  parked on either list has been triggered with EPIPE; the buffer is untouched. On a
  channel whose done flag is set, \<open>chdone\<close> returns \<open>-1\<close> with EPIPE and changes
  nothing else.
\<close>

theorem chdone_drains:
  assumes hc: "handles s h = Some (HChan c)"
  shows "(\<not> done_flag c \<longrightarrow>
            (\<exists>s' c'. chdone s h = (Ret 0, s') \<and> handles s' h = Some (HChan c') \<and>
               done_flag c' \<and> in_list c' = [] \<and> out_list c' = [] \<and>
               sz c' = sz c \<and> bufsz c' = bufsz c \<and> items c' = items c \<and>
               first c' = first c \<and> buf c' = buf c \<and>
               (\<forall>x \<in> set (in_list c) \<union> set (out_list c).
                   \<exists>i. wakeup s' (cr x) = Some (i, EPIPE)))) \<and>
         (done_flag c \<longrightarrow> chdone s h = (Ret (-1), s\<lparr>errno := EPIPE\<rparr>))"
proof (intro conjI impI)
  assume "\<not> done_flag c"
  from chdone_effect [OF hc this]
  show "\<exists>s' c'. chdone s h = (Ret 0, s') \<and> handles s' h = Some (HChan c') \<and>
               done_flag c' \<and> in_list c' = [] \<and> out_list c' = [] \<and>
               sz c' = sz c \<and> bufsz c' = bufsz c \<and> items c' = items c \<and>
               first c' = first c \<and> buf c' = buf c \<and>
               (\<forall>x \<in> set (in_list c) \<union> set (out_list c).
                   \<exists>i. wakeup s' (cr x) = Some (i, EPIPE))"
    by blast
next
  assume "done_flag c"
  then show "chdone s h = (Ret (-1), s\<lparr>errno := EPIPE\<rparr>)"
    using hc by (simp add: chdone_def hquery_chan)
qed

theorem chdone_drains_witness:
  "handles (with_chan recv_parked) 0 = Some (HChan recv_parked) \<and> \<not> done_flag recv_parked \<and>
   (\<exists>s' c'. chdone (with_chan recv_parked) 0 = (Ret 0, s') \<and> handles s' 0 = Some (HChan c') \<and>
       done_flag c' \<and> in_list c' = [] \<and> out_list c' = [] \<and>
       (\<exists>i. wakeup s' 5 = Some (i, EPIPE))) \<and>
   handles (with_chan closed_empty) 0 = Some (HChan closed_empty) \<and> done_flag closed_empty \<and>
   chdone (with_chan closed_empty) 0 = (Ret (-1), (with_chan closed_empty)\<lparr>errno := EPIPE\<rparr>)"
proof -
  have h: "handles (with_chan recv_parked) 0 = Some (HChan recv_parked)"
    by (simp add: with_chan_def)
  have nd: "\<not> done_flag recv_parked"
    by (simp add: recv_parked_def)
  have m: "\<lparr>cr = 5, clid = 0, val = 50\<rparr> \<in> set (in_list recv_parked) \<union> set (out_list recv_parked)"
    by (simp add: recv_parked_def)
  from chdone_drains [OF h] nd obtain s' c' where
    r: "chdone (with_chan recv_parked) 0 = (Ret 0, s')" "handles s' 0 = Some (HChan c')"
       "done_flag c'" "in_list c' = []" "out_list c' = []"
       "\<forall>x \<in> set (in_list recv_parked) \<union> set (out_list recv_parked).
           \<exists>i. wakeup s' (cr x) = Some (i, EPIPE)"
    by blast
  from r(6) m have "\<exists>i. wakeup s' (cr \<lparr>cr = 5, clid = 0, val = 50\<rparr>) = Some (i, EPIPE)"
    by blast
  then have w: "\<exists>i. wakeup s' 5 = Some (i, EPIPE)" by simp
  have h2: "handles (with_chan closed_empty) 0 = Some (HChan closed_empty)"
    by (simp add: with_chan_def)
  have d2: "done_flag closed_empty" by (simp add: closed_empty_def)
  from chdone_drains [OF h2] d2
  have e: "chdone (with_chan closed_empty) 0 = (Ret (-1), (with_chan closed_empty)\<lparr>errno := EPIPE\<rparr>)"
    by blast
  from h nd r w h2 d2 e show ?thesis by blast
qed

section \<open>Reading from the buffer\<close>

text \<open>
  Claim C3: on a channel with \<open>items > 0\<close>, \<open>chrecv\<close> copies the slot at index
  \<open>first\<close> into the caller's buffer, advances \<open>first\<close> modulo \<open>bufsz\<close> and
  decrements \<open>items\<close>. If a sender is parked, its payload is then copied into the slot
  at \<open>(first + items) mod bufsz\<close> (with the new \<open>first\<close> and the decremented
  \<open>items\<close>), \<open>items\<close> is incremented back to its value at entry, and the sender is
  triggered with \<open>0\<close>. The queue of buffered messages loses its head and, when a
  sender was parked, gains that sender's message at its end.
\<close>

theorem chrecv_buffer_read:
  assumes ns: "\<not> shutdown s" and hc: "handles s h = Some (HChan c)" and len: "len = sz c"
    and ne: "items c \<noteq> 0" and wf: "chan_wf c"
  shows "\<exists>s' c'. chrecv s t h v len deadline = (Ret 0, s') \<and>
           memory s' = (memory s)(v := memcpy (memory s v) (buf c ! unat (first c)) len) \<and>
           handles s' h = Some (HChan c') \<and>
           first c' = (first c + 1) mod bufsz c \<and> chan_wf c' \<and>
           (case out_list c of
              [] \<Rightarrow> items c' = items c - 1 \<and> buf c' = buf c \<and> out_list c' = [] \<and>
                    queue c' = tl (queue c)
            | k # ks \<Rightarrow>
                items c' = items c \<and>
                buf c' = (buf c)[unat ((first c' + (items c - 1)) mod bufsz c) :=
                           memcpy (buf c ! unat ((first c' + (items c - 1)) mod bufsz c))
                             (memory s' (val k)) len] \<and>
                wakeup s' (cr k) = Some (clid k, E0) \<and>
                out_list c' = filter (\<lambda>x. cr x \<noteq> cr k) ks \<and>
                queue c' = tl (queue c) @ [memcpy (buf c ! unat ((first c' + (items c - 1)) mod bufsz c))
                             (memory s' (val k)) len])"
proof -
  define c1 where "c1 = c\<lparr>first := (first c + 1) mod bufsz c, items := items c - 1\<rparr>"
  define m1 where "m1 = (memory s)(v := memcpy (memory s v) (buf c ! unat (first c)) len)"
  have q: "queue c = (buf c ! unat (first c)) # queue c1" and wf1: "chan_wf c1"
    and nz: "bufsz c \<noteq> 0"
    using queue_dequeue [OF wf ne] by (simp_all add: c1_def)
  show ?thesis
  proof (cases "out_list c")
    case Nil
    have "chrecv s t h v len deadline = (Ret 0, put_chan (s\<lparr>memory := m1\<rparr>) h c1)"
      using ns hc len ne nz Nil
      by (simp add: chrecv_def dill_canblock_ok hquery_chan size_mod_nz c1_def m1_def)
    then show ?thesis
      using Nil q wf1 by (simp add: put_chan_def m1_def c1_def)
  next
    case (Cons k ks)
    define pos where "pos = (first c1 + items c1) mod bufsz c1"
    define x where "x = memcpy (buf c1 ! unat pos) (m1 (val k)) len"
    define c2 where "c2 = c1\<lparr>buf := (buf c1)[unat pos := x], items := items c1 + 1\<rparr>"
    have room: "items c1 < bufsz c1"
    proof -
      have "unat (items c - 1) = unat (items c) - 1" by (rule items_pred [OF ne])
      moreover have "0 < unat (items c)" using ne by (simp add: unat_gt_0)
      moreover have "unat (items c) \<le> unat (bufsz c)" using chan_wf_nat [OF wf] by simp
      ultimately show ?thesis by (simp add: c1_def word_less_nat_alt)
    qed
    have q2: "queue c2 = queue c1 @ [x]" and wf2: "chan_wf c2"
      using queue_enqueue [OF wf1 room, of x] by (simp_all add: c2_def pos_def)
    have r: "chrecv s t h v len deadline =
               (Ret 0, dill_trigger (put_chan (s\<lparr>memory := m1\<rparr>) h c2) k E0)"
      using ns hc len ne nz Cons
      by (simp add: chrecv_def dill_canblock_ok hquery_chan size_mod_nz c1_def m1_def
            c2_def x_def pos_def Let_def)
    have qu: "queue (unlink (cr k) c2) = queue c2"
      by (simp add: queue_def unlink_def)
    have wfu: "chan_wf (unlink (cr k) c2) = chan_wf c2"
      by (simp add: chan_wf_def unlink_def)
    show ?thesis
      using Cons q q2 wf2 r qu wfu
      by (simp add: put_chan_def dill_trigger_def m1_def)
         (simp add: c2_def c1_def unlink_def x_def pos_def m1_def)
  qed
qed

theorem chrecv_buffer_read_witness:
  "\<not> shutdown (with_chan full2) \<and> handles (with_chan full2) 0 = Some (HChan full2) \<and>
   (1 :: size_t) = sz full2 \<and> items full2 \<noteq> 0 \<and> chan_wf full2 \<and>
   (\<exists>s' c'. chrecv (with_chan full2) 1 0 10 1 (-1) = (Ret 0, s') \<and>
      memory s' 10 = [1] \<and> handles s' 0 = Some (HChan c') \<and> first c' = 0 \<and>
      items c' = 2 \<and> buf c' = [[2], [9]] \<and> wakeup s' 6 = Some (0, E0) \<and>
      out_list c' = [] \<and> queue c' = [[2], [9]])"
proof -
  have a: "\<not> shutdown (with_chan full2)" by (simp add: with_chan_def start_def)
  have b: "handles (with_chan full2) 0 = Some (HChan full2)" by (simp add: with_chan_def)
  have c: "(1 :: size_t) = sz full2" and d: "items full2 \<noteq> 0"
    by (simp_all add: full2_def)
  have e: "chan_wf full2" by (simp add: chan_wf_def full2_def)
  have q: "queue full2 = [[1], [2]]" by (simp add: queue_def full2_def upt_rec)
  have o: "out_list full2 = [\<lparr>cr = 6, clid = 0, val = 11\<rparr>]" by (simp add: full2_def)
  have m: "memory (with_chan full2) 11 = [9]" "memory (with_chan full2) 10 = [7]"
    by (simp_all add: with_chan_def)
  have f: "first full2 = 1" "bufsz full2 = 2" "items full2 = 2" "buf full2 = [[2], [1]]"
    by (simp_all add: full2_def)
  from chrecv_buffer_read [OF a b c d e, of 1 10 "-1"]
  have "\<exists>s' c'. chrecv (with_chan full2) 1 0 10 1 (-1) = (Ret 0, s') \<and>
      memory s' 10 = [1] \<and> handles s' 0 = Some (HChan c') \<and> first c' = 0 \<and>
      items c' = 2 \<and> buf c' = [[2], [9]] \<and> wakeup s' 6 = Some (0, E0) \<and>
      out_list c' = [] \<and> queue c' = [[2], [9]]"
    by (auto simp: o q m f memcpy_def)
  with a b c d e show ?thesis by blast
qed

section \<open>Receiving after chdone\<close>

text \<open>
  Claim C4: after \<open>chdone\<close> on a channel that holds \<open>k\<close> buffered messages, the next
  \<open>k\<close> calls of \<open>chrecv\<close> return \<open>0\<close> and deliver the buffered messages, oldest
  first, and the call after them returns \<open>-1\<close> with EPIPE. And a \<open>chrecv\<close> that
  passes the length check returns \<open>-1\<close> with EPIPE only on a channel that is done and
  whose buffer is empty.
\<close>

theorem recv_after_done:
  "(\<not> shutdown s \<and> handles s h = Some (HChan c) \<and> \<not> done_flag c \<and> chan_wf c \<and> len = sz c \<and>
    (\<forall>x \<in> set (queue c). length x = unat len) \<and> length (memory s v) = unat len \<longrightarrow>
      (\<exists>s1 s2 s3. chdone s h = (Ret 0, s1) \<and>
         recv_seq s1 t h v len deadline (unat (items c)) = (map (\<lambda>x. (Ret 0, x)) (queue c), s2) \<and>
         chrecv s2 t h v len deadline = (Ret (-1), s3) \<and> errno s3 = EPIPE)) \<and>
   (handles s h = Some (HChan c) \<and> len = sz c \<and>
    chrecv s t h v len deadline = (Ret (-1), s') \<and> errno s' = EPIPE \<longrightarrow>
      done_flag c \<and> items c = 0)"
proof (intro conjI impI)
  assume a: "\<not> shutdown s \<and> handles s h = Some (HChan c) \<and> \<not> done_flag c \<and> chan_wf c \<and>
    len = sz c \<and> (\<forall>x \<in> set (queue c). length x = unat len) \<and> length (memory s v) = unat len"
  from chdone_effect [of s h c] a obtain s1 c1 where
    d: "chdone s h = (Ret 0, s1)" "handles s1 h = Some (HChan c1)" "done_flag c1"
       "out_list c1 = []" "sz c1 = sz c" "bufsz c1 = bufsz c" "items c1 = items c"
       "first c1 = first c" "buf c1 = buf c" "memory s1 = memory s" "shutdown s1 = shutdown s"
    by blast
  have q1: "queue c1 = queue c" using d by (simp add: queue_def)
  have wf1: "chan_wf c1" using a d by (simp add: chan_wf_def)
  from recv_seq_drain [of s1 h c1 len v "unat (items c)" t deadline] a d q1 wf1
  obtain s2 c2 where
    r: "recv_seq s1 t h v len deadline (unat (items c)) = (map (\<lambda>x. (Ret 0, x)) (queue c), s2)"
       "handles s2 h = Some (HChan c2)" "items c2 = 0" "out_list c2 = []" "done_flag c2"
       "sz c2 = sz c" "\<not> shutdown s2"
    by auto
  have "chrecv s2 t h v len deadline = (Ret (-1), s2\<lparr>errno := EPIPE\<rparr>)"
    using chrecv_drained [of s2 h c2 len t v deadline] r a by simp
  with d(1) r(1)
  show "\<exists>s1 s2 s3. chdone s h = (Ret 0, s1) \<and>
         recv_seq s1 t h v len deadline (unat (items c)) = (map (\<lambda>x. (Ret 0, x)) (queue c), s2) \<and>
         chrecv s2 t h v len deadline = (Ret (-1), s3) \<and> errno s3 = EPIPE"
    by auto
next
  assume "handles s h = Some (HChan c) \<and> len = sz c \<and>
    chrecv s t h v len deadline = (Ret (-1), s') \<and> errno s' = EPIPE"
  then have "done_flag c \<and> items c = 0"
    using chrecv_epipe_only [of s h c len t v deadline s'] by blast
  then show "done_flag c" and "items c = 0" by simp_all
qed

theorem recv_after_done_witness:
  "\<not> shutdown (with_chan two_items) \<and> handles (with_chan two_items) 0 = Some (HChan two_items) \<and>
   \<not> done_flag two_items \<and> chan_wf two_items \<and> (1 :: size_t) = sz two_items \<and>
   queue two_items = [[97], [98]] \<and> length (memory (with_chan two_items) 10) = unat (1 :: size_t) \<and>
   unat (items two_items) = 2 \<and>
   (\<exists>s1 s2 s3. chdone (with_chan two_items) 0 = (Ret 0, s1) \<and>
      recv_seq s1 1 0 10 1 (-1) 2 = ([(Ret 0, [97]), (Ret 0, [98])], s2) \<and>
      chrecv s2 1 0 10 1 (-1) = (Ret (-1), s3) \<and> errno s3 = EPIPE) \<and>
   handles (with_chan closed_empty) 0 = Some (HChan closed_empty) \<and>
   (1 :: size_t) = sz closed_empty \<and>
   chrecv (with_chan closed_empty) 1 0 10 1 (-1) =
     (Ret (-1), (with_chan closed_empty)\<lparr>errno := EPIPE\<rparr>) \<and>
   errno ((with_chan closed_empty)\<lparr>errno := EPIPE\<rparr>) = EPIPE \<and>
   done_flag closed_empty \<and> items closed_empty = 0"
proof -
  have a: "\<not> shutdown (with_chan two_items)" by (simp add: with_chan_def start_def)
  have b: "handles (with_chan two_items) 0 = Some (HChan two_items)" by (simp add: with_chan_def)
  have c: "\<not> done_flag two_items" "(1 :: size_t) = sz two_items" "unat (items two_items) = 2"
    by (simp_all add: two_items_def)
  have d: "chan_wf two_items" by (simp add: chan_wf_def two_items_def)
  have q: "queue two_items = [[97], [98]]" by (simp add: queue_def two_items_def upt_rec)
  have m: "length (memory (with_chan two_items) 10) = unat (1 :: size_t)"
    by (simp add: with_chan_def)
  have ql: "\<forall>x \<in> set (queue two_items). length x = unat (1 :: size_t)" by (simp add: q)
  from recv_after_done [of "with_chan two_items" 0 two_items 1 10 1 "-1"] a b c d ql m
  have p1: "\<exists>s1 s2 s3. chdone (with_chan two_items) 0 = (Ret 0, s1) \<and>
      recv_seq s1 1 0 10 1 (-1) 2 = ([(Ret 0, [97]), (Ret 0, [98])], s2) \<and>
      chrecv s2 1 0 10 1 (-1) = (Ret (-1), s3) \<and> errno s3 = EPIPE"
    by (simp add: q)
  have e: "handles (with_chan closed_empty) 0 = Some (HChan closed_empty)"
    by (simp add: with_chan_def)
  have f: "(1 :: size_t) = sz closed_empty" by (simp add: closed_empty_def)
  have g: "chrecv (with_chan closed_empty) 1 0 10 1 (-1) =
     (Ret (-1), (with_chan closed_empty)\<lparr>errno := EPIPE\<rparr>)"
    by (simp add: chrecv_def dill_canblock_def hquery_def with_chan_def closed_empty_def start_def)
  have i: "errno ((with_chan closed_empty)\<lparr>errno := EPIPE\<rparr>) = EPIPE" by simp
  from recv_after_done [of "with_chan closed_empty" 0 closed_empty 1 10 1 "-1"
      "(with_chan closed_empty)\<lparr>errno := EPIPE\<rparr>"] e f g i
  have p2: "done_flag closed_empty \<and> items closed_empty = 0" by blast
  from a b c d q m p1 e f g i p2 show ?thesis by blast
qed

section \<open>Round trip\<close>

text \<open>
  Claim C7 (L1): a message of \<open>len\<close> bytes that is sent arrives unchanged, byte for
  byte, at the receive that consumes it. On a channel with nobody waiting, whose state
  is otherwise arbitrary, the payload is the buffer at address \<open>p\<close> and the receiver's
  buffer is at address \<open>q\<close>:
  \<^item> through the buffer: after the send, the receives deliver the messages buffered
    before, in order, and then the payload;
  \<^item> by rendezvous on an unbuffered channel: the sender parks, the receive copies the
    payload out of the sender's buffer and the resumed sender returns \<open>0\<close>;
  \<^item> by direct hand-off: the receiver parks, the send copies the payload into the
    receiver's buffer and the resumed receiver returns \<open>0\<close>.
\<close>

theorem send_recv_roundtrip:
  assumes ns: "\<not> shutdown s" and hc: "handles s h = Some (HChan c)" and len: "len = sz c"
    and nd: "\<not> done_flag c" and il: "in_list c = []" and ol: "out_list c = []"
    and lp: "length (memory s p) = unat len" and lq: "length (memory s q) = unat len"
  shows "(chan_wf c \<and> items c < bufsz c \<and> (\<forall>x \<in> set (buf c). length x = unat len) \<longrightarrow>
            (\<exists>s1 s2. chsend s t1 h p len d1 = (Ret 0, s1) \<and>
               recv_seq s1 t2 h q len d2 (unat (items c) + 1) =
                 (map (\<lambda>x. (Ret 0, x)) (queue c @ [memory s p]), s2))) \<and>
         (bufsz c = 0 \<and> items c = 0 \<and> d1 \<noteq> 0 \<longrightarrow>
            (\<exists>s1 s2 s3. chsend s t1 h p len d1 = (Blocked, s1) \<and>
               chrecv s1 t2 h q len d2 = (Ret 0, s2) \<and> memory s2 q = memory s p \<and>
               chsend_resume s2 t1 = Some (0, s3))) \<and>
         (items c = 0 \<and> d2 \<noteq> 0 \<longrightarrow>
            (\<exists>s1 s2 s3. chrecv s t2 h q len d2 = (Blocked, s1) \<and>
               chsend s1 t1 h p len d1 = (Ret 0, s2) \<and> memory s2 q = memory s p \<and>
               chrecv_resume s2 t2 = Some (0, s3)))"
proof (intro conjI impI)
  assume "chan_wf c \<and> items c < bufsz c \<and> (\<forall>x \<in> set (buf c). length x = unat len)"
  then show "\<exists>s1 s2. chsend s t1 h p len d1 = (Ret 0, s1) \<and>
               recv_seq s1 t2 h q len d2 (unat (items c) + 1) =
                 (map (\<lambda>x. (Ret 0, x)) (queue c @ [memory s p]), s2)"
    using roundtrip_buffered [OF ns hc len nd _ il ol _ _ lp lq] by blast
next
  assume "bufsz c = 0 \<and> items c = 0 \<and> d1 \<noteq> 0"
  then show "\<exists>s1 s2 s3. chsend s t1 h p len d1 = (Blocked, s1) \<and>
               chrecv s1 t2 h q len d2 = (Ret 0, s2) \<and> memory s2 q = memory s p \<and>
               chsend_resume s2 t1 = Some (0, s3)"
    using roundtrip_rendezvous [OF ns hc len nd il ol _ _ _ lp lq] by blast
next
  assume "items c = 0 \<and> d2 \<noteq> 0"
  then show "\<exists>s1 s2 s3. chrecv s t2 h q len d2 = (Blocked, s1) \<and>
               chsend s1 t1 h p len d1 = (Ret 0, s2) \<and> memory s2 q = memory s p \<and>
               chrecv_resume s2 t2 = Some (0, s3)"
    using roundtrip_handoff [OF ns hc len nd il ol _ _ lp lq] by blast
qed

theorem send_recv_roundtrip_witness:
  "\<not> shutdown (with_chan two_items) \<and> handles (with_chan two_items) 0 = Some (HChan two_items) \<and>
   (1 :: size_t) = sz two_items \<and> \<not> done_flag two_items \<and> in_list two_items = [] \<and>
   out_list two_items = [] \<and> length (memory (with_chan two_items) 10) = unat (1 :: size_t) \<and>
   length (memory (with_chan two_items) 11) = unat (1 :: size_t) \<and>
   chan_wf two_items \<and> items two_items < bufsz two_items \<and>
   set (buf two_items) = {[97], [98], [0]} \<and>
   (\<exists>s1 s2. chsend (with_chan two_items) 1 0 10 1 (-1) = (Ret 0, s1) \<and>
      recv_seq s1 2 0 11 1 (-1) 3 = ([(Ret 0, [97]), (Ret 0, [98]), (Ret 0, [7])], s2)) \<and>
   \<not> shutdown (with_chan idle1) \<and> handles (with_chan idle1) 0 = Some (HChan idle1) \<and>
   (1 :: size_t) = sz idle1 \<and> \<not> done_flag idle1 \<and> in_list idle1 = [] \<and>
   out_list idle1 = [] \<and> bufsz idle1 = 0 \<and> items idle1 = 0 \<and>
   (\<exists>s1 s2 s3. chsend (with_chan idle1) 1 0 10 1 (-1) = (Blocked, s1) \<and>
      chrecv s1 2 0 11 1 (-1) = (Ret 0, s2) \<and> memory s2 11 = [7] \<and>
      chsend_resume s2 1 = Some (0, s3)) \<and>
   (\<exists>s1 s2 s3. chrecv (with_chan idle1) 2 0 11 1 (-1) = (Blocked, s1) \<and>
      chsend s1 1 0 10 1 (-1) = (Ret 0, s2) \<and> memory s2 11 = [7] \<and>
      chrecv_resume s2 2 = Some (0, s3))"
proof -
  have a: "\<not> shutdown (with_chan two_items)" "\<not> shutdown (with_chan idle1)"
    by (simp_all add: with_chan_def start_def)
  have b: "handles (with_chan two_items) 0 = Some (HChan two_items)"
    "handles (with_chan idle1) 0 = Some (HChan idle1)"
    by (simp_all add: with_chan_def)
  have c: "(1 :: size_t) = sz two_items" "\<not> done_flag two_items" "in_list two_items = []"
    "out_list two_items = []" "items two_items < bufsz two_items"
    "set (buf two_items) = {[97], [98], [0]}" "unat (items two_items) + 1 = 3"
    by (simp_all add: two_items_def)
  have d: "(1 :: size_t) = sz idle1" "\<not> done_flag idle1" "in_list idle1 = []"
    "out_list idle1 = []" "bufsz idle1 = 0" "items idle1 = 0"
    by (simp_all add: idle1_def)
  have m: "length (memory (with_chan two_items) 10) = unat (1 :: size_t)"
    "length (memory (with_chan two_items) 11) = unat (1 :: size_t)"
    "length (memory (with_chan idle1) 10) = unat (1 :: size_t)"
    "length (memory (with_chan idle1) 11) = unat (1 :: size_t)"
    "memory (with_chan two_items) 10 = [7]" "memory (with_chan idle1) 10 = [7]"
    by (simp_all add: with_chan_def)
  have wf: "chan_wf two_items" by (simp add: chan_wf_def two_items_def)
  have q: "queue two_items = [[97], [98]]" by (simp add: queue_def two_items_def upt_rec)
  have sl: "\<forall>x \<in> set (buf two_items). length x = unat (1 :: size_t)" by (simp add: c(6))
  have t1: "chan_wf two_items \<and> items two_items < bufsz two_items \<and>
            (\<forall>x \<in> set (buf two_items). length x = unat (1 :: size_t))"
    using wf c(5) sl by blast
  from send_recv_roundtrip [OF a(1) b(1) c(1) c(2) c(3) c(4) m(1) m(2), of 1 "-1" 2 "-1",
      THEN conjunct1, rule_format, OF t1]
  have p1: "\<exists>s1 s2. chsend (with_chan two_items) 1 0 10 1 (-1) = (Ret 0, s1) \<and>
      recv_seq s1 2 0 11 1 (-1) 3 = ([(Ret 0, [97]), (Ret 0, [98]), (Ret 0, [7])], s2)"
    unfolding c(7) q m(5) by simp
  from send_recv_roundtrip [OF a(2) b(2) d(1) d(2) d(3) d(4) m(3) m(4), of 1 "-1" 2 "-1"]
    d(5) d(6)
  have p2: "(\<exists>s1 s2 s3. chsend (with_chan idle1) 1 0 10 1 (-1) = (Blocked, s1) \<and>
      chrecv s1 2 0 11 1 (-1) = (Ret 0, s2) \<and> memory s2 11 = [7] \<and>
      chsend_resume s2 1 = Some (0, s3)) \<and>
   (\<exists>s1 s2 s3. chrecv (with_chan idle1) 2 0 11 1 (-1) = (Blocked, s1) \<and>
      chsend s1 1 0 10 1 (-1) = (Ret 0, s2) \<and> memory s2 11 = [7] \<and>
      chrecv_resume s2 2 = Some (0, s3))"
    by (simp add: m(6))
  from a b c d m wf p1 p2 show ?thesis by blast
qed

section \<open>The polling phase of choose\<close>

text \<open>
  Claim C6, as amended. The polling phase walks the clauses in order. It acts on a
  well-formed send-clause when the channel is done, a receiver is waiting or the buffer
  has room, and on a well-formed receive-clause when an item is buffered, a sender is
  waiting or the channel is done. When the clauses before index \<open>i\<close> are well-formed
  and none of them is available, and clause \<open>i\<close> is well-formed and available, on a
  channel that has no parked sender once it is done (I4), then \<open>choose\<close> does to the
  state what \<open>chsend\<close> or \<open>chrecv\<close> with the clause's arguments does, except that it
  returns \<open>i\<close> and sets \<open>errno\<close> to \<open>0\<close> after a success. With \<open>items \<le> bufsz\<close>
  the result is \<open>i\<close>, and \<open>errno\<close> is EPIPE for a send on a done channel and for a
  receive on a done and empty channel, and \<open>0\<close> otherwise.
\<close>

theorem choose_first_available:
  assumes ns: "\<not> shutdown s" and il: "i < length ks" and inn: "int i < n"
    and before: "\<forall>j<i. clause_ok s (ks ! j) \<and> \<not> available s (ks ! j)"
    and ok: "clause_ok s (ks ! i)" and av: "available s (ks ! i)"
    and hc: "handles s (cl_ch (ks ! i)) = Some (HChan c)"
    and i4: "done_flag c \<longrightarrow> out_list c = []"
  shows "dill_choose s t (Some ks) n deadline = as_choice (int i) (single_op s t (ks ! i) d') \<and>
         (items c \<le> bufsz c \<longrightarrow>
            (\<exists>s'. dill_choose s t (Some ks) n deadline = (Ret (int i), s') \<and>
               errno s' = (if done_flag c \<and> (cl_op (ks ! i) = CHSEND \<or> items c = 0)
                           then EPIPE else E0)))"
proof -
  have op: "cl_op (ks ! i) = CHSEND \<or> cl_op (ks ! i) = CHRECV"
    using ok hc by (simp add: clause_ok_def)
  have pc: "poll_clause s (int i) (ks ! i) = Some (as_choice (int i) (single_op s t (ks ! i) d'))"
    using op
  proof
    assume o: "cl_op (ks ! i) = CHSEND"
    from poll_clause_send [OF ns hc ok av o] show ?thesis by (simp add: single_op_def o)
  next
    assume o: "cl_op (ks ! i) = CHRECV"
    from poll_clause_recv [OF ns hc ok av o i4] show ?thesis by (simp add: single_op_def o)
  qed
  have eq: "dill_choose s t (Some ks) n deadline = as_choice (int i) (single_op s t (ks ! i) d')"
    using choose_polls [OF ns il inn before] pc by simp
  have "\<exists>s'. as_choice (int i) (single_op s t (ks ! i) d') = (Ret (int i), s') \<and>
               errno s' = (if done_flag c \<and> (cl_op (ks ! i) = CHSEND \<or> items c = 0)
                           then EPIPE else E0)"
    if le: "items c \<le> bufsz c"
    using op
  proof
    assume o: "cl_op (ks ! i) = CHSEND"
    show ?thesis
      using ns hc ok av o
      by (auto simp: single_op_def as_choice_def chsend_def dill_canblock_def hquery_def
            clause_ok_def available_def size_mod_def Let_def dill_trigger_def put_chan_def)
  next
    assume o: "cl_op (ks ! i) = CHRECV"
    have "items c \<noteq> 0 \<Longrightarrow> bufsz c \<noteq> 0" using le by auto
    then show ?thesis
      using ns hc ok av o i4
      by (auto simp: single_op_def as_choice_def chrecv_def dill_canblock_def hquery_def
            clause_ok_def available_def size_mod_def Let_def dill_trigger_def put_chan_def)
  qed
  with eq show ?thesis by simp
qed

theorem choose_first_available_witness:
  "\<not> shutdown (with_chans idle1 two_items) \<and> (1 :: nat) < length [send0, recv1] \<and>
   int 1 < 2 \<and>
   clause_ok (with_chans idle1 two_items) send0 \<and> \<not> available (with_chans idle1 two_items) send0 \<and>
   clause_ok (with_chans idle1 two_items) recv1 \<and> available (with_chans idle1 two_items) recv1 \<and>
   handles (with_chans idle1 two_items) (cl_ch recv1) = Some (HChan two_items) \<and>
   \<not> done_flag two_items \<and> items two_items \<le> bufsz two_items \<and>
   dill_choose (with_chans idle1 two_items) 1 (Some [send0, recv1]) 2 (-1) =
     as_choice 1 (single_op (with_chans idle1 two_items) 1 recv1 0) \<and>
   (\<exists>s'. dill_choose (with_chans idle1 two_items) 1 (Some [send0, recv1]) 2 (-1) = (Ret 1, s') \<and>
      errno s' = E0)"
proof -
  let ?s = "with_chans idle1 two_items"
  have a: "\<not> shutdown ?s" by (simp add: with_chans_def start_def)
  have b: "(1 :: nat) < length [send0, recv1]" "int 1 < 2" by simp_all
  have c: "clause_ok ?s send0" "\<not> available ?s send0"
    by (simp_all add: clause_ok_def available_def with_chans_def send0_def idle1_def)
  have d: "clause_ok ?s recv1" "available ?s recv1"
    by (simp_all add: clause_ok_def available_def with_chans_def recv1_def two_items_def)
  have e: "handles ?s (cl_ch recv1) = Some (HChan two_items)"
    by (simp add: with_chans_def recv1_def)
  have f: "\<not> done_flag two_items" "items two_items \<le> bufsz two_items"
    by (simp_all add: two_items_def)
  have g: "\<forall>j<1. clause_ok ?s ([send0, recv1] ! j) \<and> \<not> available ?s ([send0, recv1] ! j)"
    using c by simp
  have h: "done_flag two_items \<longrightarrow> out_list two_items = []" using f by simp
  have d': "clause_ok ?s ([send0, recv1] ! 1)" "available ?s ([send0, recv1] ! 1)"
    "handles ?s (cl_ch ([send0, recv1] ! 1)) = Some (HChan two_items)"
    using d e by simp_all
  note th = choose_first_available [of ?s 1 "[send0, recv1]" 2 two_items 1 "-1" 0,
      OF a b g d' h]
  have p1: "dill_choose ?s 1 (Some [send0, recv1]) 2 (-1) =
              as_choice 1 (single_op ?s 1 recv1 0)"
    using th [THEN conjunct1] by simp
  have p2: "\<exists>s'. dill_choose ?s 1 (Some [send0, recv1]) 2 (-1) = (Ret 1, s') \<and> errno s' = E0"
    using th [THEN conjunct2, rule_format, OF f(2)] f(1) by simp
  note p1 p2
  with a b c d e f show ?thesis by blast
qed

text \<open>
  Claim C6 as it is stated fails: it calls a send-clause on a done channel not ready.
  With a done channel under handle \<open>0\<close> and two buffered messages under handle \<open>1\<close>,
  the send-clause at index \<open>0\<close> is not ready in the sense of the claim and the
  receive-clause at index \<open>1\<close> is, so index \<open>1\<close> is the lowest ready one; \<open>choose\<close>
  returns \<open>0\<close> with EPIPE and leaves both channels as they were.
\<close>

theorem choose_done_send_first:
  "\<not> spec_ready (with_chans closed_empty two_items) ([send0, recv1] ! 0) \<and>
   spec_ready (with_chans closed_empty two_items) ([send0, recv1] ! 1) \<and>
   dill_choose (with_chans closed_empty two_items) 1 (Some [send0, recv1]) 2 (-1) =
     (Ret 0, (with_chans closed_empty two_items)\<lparr>errno := EPIPE\<rparr>)"
  by (simp add: spec_ready_def with_chans_def closed_empty_def two_items_def send0_def recv1_def
        dill_choose_def dill_canblock_def poll_clause_def hquery_def start_def)

section \<open>Validation in choose\<close>

text \<open>
  Claim C10, as amended. When the process is not shutting down, \<open>choose\<close> returns
  \<open>-1\<close> with EINVAL if \<open>nclauses < 0\<close>, or if \<open>clauses\<close> is null and \<open>nclauses\<close> is
  not \<open>0\<close>. Clauses are validated one by one, in the polling loop: when the clauses
  before index \<open>i\<close> are well-formed and none of them is available, and clause \<open>i\<close> has
  a length other than the element size of its channel, or a null payload with a length
  above \<open>0\<close>, or a direction other than CHSEND and CHRECV, then \<open>choose\<close> returns \<open>i\<close>
  with EINVAL. In both cases nothing but \<open>errno\<close> is changed.
\<close>

theorem choose_validation:
  "(\<not> shutdown s \<and> (n < 0 \<or> (n \<noteq> 0 \<and> cls = None)) \<longrightarrow>
      dill_choose s t cls n deadline = (Ret (-1), s\<lparr>errno := EINVAL\<rparr>)) \<and>
   (\<not> shutdown s \<and> i < length ks \<and> int i < n \<and>
    (\<forall>j<i. clause_ok s (ks ! j) \<and> \<not> available s (ks ! j)) \<and> malformed s (ks ! i) \<longrightarrow>
      dill_choose s t (Some ks) n deadline = (Ret (int i), s\<lparr>errno := EINVAL\<rparr>))"
proof (intro conjI impI)
  assume "\<not> shutdown s \<and> (n < 0 \<or> (n \<noteq> 0 \<and> cls = None))"
  then show "dill_choose s t cls n deadline = (Ret (-1), s\<lparr>errno := EINVAL\<rparr>)"
    by (auto simp: dill_choose_def dill_canblock_ok)
next
  assume a: "\<not> shutdown s \<and> i < length ks \<and> int i < n \<and>
    (\<forall>j<i. clause_ok s (ks ! j) \<and> \<not> available s (ks ! j)) \<and> malformed s (ks ! i)"
  then have "poll_clause s (int i) (ks ! i) = Some (Ret (int i), s\<lparr>errno := EINVAL\<rparr>)"
    by (simp add: poll_clause_malformed)
  moreover have "dill_choose s t (Some ks) n deadline =
           (case poll_clause s (int i) (ks ! i) of
              Some r \<Rightarrow> r
            | None \<Rightarrow>
                (case poll s n (int i + 1) (drop (Suc i) ks) of
                   Some r \<Rightarrow> r
                 | None \<Rightarrow>
                     if deadline = 0 then (Ret (-1), s\<lparr>errno := ETIMEDOUT\<rparr>)
                     else (case park_loop s t n 0 ks of
                             Inl f \<Rightarrow> (Fault f, s)
                           | Inr s2 \<Rightarrow> (Blocked, dill_timer s2 t n deadline))))"
    using a by (intro choose_polls) simp_all
  ultimately show "dill_choose s t (Some ks) n deadline = (Ret (int i), s\<lparr>errno := EINVAL\<rparr>)"
    by simp
qed

theorem choose_validation_witness:
  "\<not> shutdown (with_chans idle1 two_items) \<and> (-1 :: int) < 0 \<and>
   dill_choose (with_chans idle1 two_items) 1 None (-1) 0 =
     (Ret (-1), (with_chans idle1 two_items)\<lparr>errno := EINVAL\<rparr>) \<and>
   (1 :: nat) < length [send0, send0_len3] \<and> int 1 < 2 \<and>
   clause_ok (with_chans idle1 two_items) send0 \<and> \<not> available (with_chans idle1 two_items) send0 \<and>
   malformed (with_chans idle1 two_items) send0_len3 \<and>
   dill_choose (with_chans idle1 two_items) 1 (Some [send0, send0_len3]) 2 (-1) =
     (Ret 1, (with_chans idle1 two_items)\<lparr>errno := EINVAL\<rparr>)"
proof -
  let ?s = "with_chans idle1 two_items"
  have a: "\<not> shutdown ?s" by (simp add: with_chans_def start_def)
  have b: "(1 :: nat) < length [send0, send0_len3]" "int 1 < 2" "(-1 :: int) < 0" by simp_all
  have c: "clause_ok ?s send0" "\<not> available ?s send0"
    by (simp_all add: clause_ok_def available_def with_chans_def send0_def idle1_def)
  have d: "malformed ?s send0_len3"
    by (simp add: malformed_def with_chans_def send0_len3_def idle1_def)
  have g: "\<forall>j<1. clause_ok ?s ([send0, send0_len3] ! j) \<and> \<not> available ?s ([send0, send0_len3] ! j)"
    using c by simp
  from choose_validation [where s = ?s and n = "-1" and cls = None and t = 1 and deadline = 0,
      THEN conjunct1] a
  have p1: "dill_choose ?s 1 None (-1) 0 = (Ret (-1), ?s\<lparr>errno := EINVAL\<rparr>)" by simp
  from choose_validation [where s = ?s and n = 2 and i = 1 and ks = "[send0, send0_len3]"
      and t = 1 and deadline = "-1", THEN conjunct2] a b g d
  have p2: "dill_choose ?s 1 (Some [send0, send0_len3]) 2 (-1) = (Ret 1, ?s\<lparr>errno := EINVAL\<rparr>)"
    by simp
  from a b c d p1 p2 show ?thesis by blast
qed

text \<open>
  Claim C10 as it is stated fails: validation does not come before the channels are
  touched. With the malformed clause (length \<open>3\<close> on a channel of one-byte messages) at
  index \<open>1\<close>, behind a well-formed receive-clause on a channel that holds two messages,
  \<open>choose\<close> returns \<open>0\<close> with \<open>errno = 0\<close> and has taken a message out of the
  buffer; the malformed clause is never looked at.
\<close>

theorem choose_malformed_behind_available:
  "malformed (with_chans idle1 two_items) ([recv1, send0_len3] ! 1) \<and>
   clause_ok (with_chans idle1 two_items) ([recv1, send0_len3] ! 0) \<and>
   fst (dill_choose (with_chans idle1 two_items) 1 (Some [recv1, send0_len3]) 2 (-1)) = Ret 0 \<and>
   errno (snd (dill_choose (with_chans idle1 two_items) 1 (Some [recv1, send0_len3]) 2 (-1))) = E0 \<and>
   handles (snd (dill_choose (with_chans idle1 two_items) 1 (Some [recv1, send0_len3]) 2 (-1))) 1 =
     Some (HChan (two_items\<lparr>items := 1, first := 1\<rparr>))"
  by (simp add: malformed_def clause_ok_def with_chans_def idle1_def two_items_def send0_len3_def
        recv1_def dill_choose_def dill_canblock_def poll_clause_def hquery_def start_def
        size_mod_def put_chan_def)

section \<open>Waiter exclusion\<close>

subsection \<open>Single operations keep I1\<close>

lemma excl_trigger: "waiter_excl s \<Longrightarrow> waiter_excl (dill_trigger s k e)"
  unfolding waiter_excl_def
proof (intro allI impI)
  fix h c
  assume a: "\<forall>h c. handles s h = Some (HChan c) \<longrightarrow> in_list c = [] \<or> out_list c = []"
    and b: "handles (dill_trigger s k e) h = Some (HChan c)"
  from b obtain c0 where c0: "handles s h = Some (HChan c0)" "c = unlink (cr k) c0"
    by (cases "handles s h"; cases "the (handles s h)") (auto simp: dill_trigger_def)
  from a c0(1) have "in_list c0 = [] \<or> out_list c0 = []" by blast
  then show "in_list c = [] \<or> out_list c = []"
    by (auto simp: c0(2) unlink_def)
qed

lemma excl_put:
  "waiter_excl s \<Longrightarrow> in_list c = [] \<or> out_list c = [] \<Longrightarrow> waiter_excl (put_chan s h c)"
  by (auto simp: waiter_excl_def put_chan_def)

lemma excl_fields [simp]:
  "waiter_excl (s\<lparr>errno := e\<rparr>) = waiter_excl s"
  "waiter_excl (s\<lparr>memory := m\<rparr>) = waiter_excl s"
  "waiter_excl (s\<lparr>timers := tm\<rparr>) = waiter_excl s"
  "waiter_excl (s\<lparr>wakeup := w\<rparr>) = waiter_excl s"
  by (simp_all add: waiter_excl_def)

lemma excl_timer: "waiter_excl (dill_timer s t i d) = waiter_excl s"
  by (simp add: dill_timer_def)

lemma excl_waitfor:
  assumes "waiter_excl s" "handles s h = Some (HChan c)"
    "get_list (case l of ChIn \<Rightarrow> ChOut | ChOut \<Rightarrow> ChIn) c = []"
  shows "waiter_excl (dill_waitfor s t i h l v)"
  using assms
  by (cases l) (auto simp: dill_waitfor_def get_list_def list_insert_def intro!: excl_put)

lemma excl_drain: "waiter_excl s \<Longrightarrow> waiter_excl (drain s h l)"
proof (induction s h l rule: drain.induct)
  case (1 s h l)
  show ?case
  proof (cases "waiters s h l")
    case Nil
    then show ?thesis using "1.prems" by (simp add: drain.simps [of s h l])
  next
    case (Cons k ks)
    from "1.IH" [OF Cons excl_trigger [OF "1.prems"]] show ?thesis
      using Cons by (simp add: drain.simps [of s h l])
  qed
qed

lemma excl_chan: "waiter_excl s \<Longrightarrow> handles s h = Some (HChan c) \<Longrightarrow> in_list c = [] \<or> out_list c = []"
  by (auto simp: waiter_excl_def)

lemma excl_channel: "waiter_excl s \<Longrightarrow> waiter_excl (snd (channel s itemsz bsz ok hm))"
  by (auto simp: channel_def dill_canblock_def Let_def intro!: excl_put split: sum.splits)

lemma excl_chsend:
  assumes "waiter_excl s"
  shows "waiter_excl (snd (chsend s t h v len d))"
proof (cases "handles s h")
  case None
  then show ?thesis using assms by (simp add: chsend_def dill_canblock_def hquery_def)
next
  case (Some o1)
  show ?thesis
  proof (cases o1)
    case HOther
    then show ?thesis using assms Some by (simp add: chsend_def dill_canblock_def hquery_def)
  next
    case (HChan c)
    have hc: "handles s h = Some (HChan c)" using Some HChan by simp
    from excl_chan [OF assms hc] have io: "in_list c = [] \<or> out_list c = []" .
    have w: "in_list c = [] \<Longrightarrow> waiter_excl (dill_waitfor s t 0 h ChOut v)"
      by (rule excl_waitfor [OF assms hc]) (simp add: get_list_def)
    show ?thesis
      using assms hc io w
      by (auto simp: chsend_def dill_canblock_def hquery_def Let_def size_mod_def excl_timer
               intro!: excl_trigger excl_put)
  qed
qed

lemma excl_chrecv:
  assumes "waiter_excl s"
  shows "waiter_excl (snd (chrecv s t h v len d))"
proof (cases "handles s h")
  case None
  then show ?thesis using assms by (simp add: chrecv_def dill_canblock_def hquery_def)
next
  case (Some o1)
  show ?thesis
  proof (cases o1)
    case HOther
    then show ?thesis using assms Some by (simp add: chrecv_def dill_canblock_def hquery_def)
  next
    case (HChan c)
    have hc: "handles s h = Some (HChan c)" using Some HChan by simp
    from excl_chan [OF assms hc] have io: "in_list c = [] \<or> out_list c = []" .
    have w: "out_list c = [] \<Longrightarrow> waiter_excl (dill_waitfor s t 0 h ChIn v)"
      by (rule excl_waitfor [OF assms hc]) (simp add: get_list_def)
    show ?thesis
      using assms hc io w
      by (auto simp: chrecv_def dill_canblock_def hquery_def Let_def size_mod_def excl_timer
               intro!: excl_trigger excl_put)
  qed
qed

lemma excl_chdone:
  assumes "waiter_excl s"
  shows "waiter_excl (snd (chdone s h))"
proof (cases "handles s h")
  case None
  then show ?thesis using assms by (simp add: chdone_def hquery_def)
next
  case (Some o1)
  show ?thesis
  proof (cases o1)
    case HOther
    then show ?thesis using assms Some by (simp add: chdone_def hquery_def)
  next
    case (HChan c)
    have hc: "handles s h = Some (HChan c)" using Some HChan by simp
    from excl_chan [OF assms hc] have io: "in_list c = [] \<or> out_list c = []" .
    have "waiter_excl (put_chan s h (c\<lparr>done_flag := True\<rparr>))"
      using io by (intro excl_put assms) simp
    then have "waiter_excl (drain (drain (put_chan s h (c\<lparr>done_flag := True\<rparr>)) h ChIn) h ChOut)"
      by (intro excl_drain)
    then show ?thesis
      using assms hc by (simp add: chdone_def hquery_def)
  qed
qed

lemma excl_timer_fire: "waiter_excl s \<Longrightarrow> waiter_excl (timer_fire s t)"
  by (auto simp: timer_fire_def intro!: excl_trigger split: option.splits)

subsection \<open>choose keeps I1 unless it parks both directions on one channel\<close>

lemma excl_poll_clause:
  assumes "waiter_excl s" "poll_clause s i k = Some (r, s')"
  shows "waiter_excl s'"
proof (cases "handles s (cl_ch k)")
  case None
  then show ?thesis using assms by (auto simp: poll_clause_def hquery_def)
next
  case (Some o1)
  show ?thesis
  proof (cases o1)
    case HOther
    then show ?thesis using assms Some by (auto simp: poll_clause_def hquery_def)
  next
    case (HChan c)
    have hc: "handles s (cl_ch k) = Some (HChan c)" using Some HChan by simp
    from excl_chan [OF assms(1) hc] have io: "in_list c = [] \<or> out_list c = []" .
    show ?thesis
    proof (cases "cl_op k")
      case CHSEND
      show ?thesis
        using assms hc io CHSEND
        by (auto simp: poll_clause_def hquery_def Let_def size_mod_def
                 intro!: excl_trigger excl_put split: if_splits)
    next
      case CHRECV
      show ?thesis
        using assms hc io CHRECV
        by (auto simp: poll_clause_def hquery_def Let_def size_mod_def
                 intro!: excl_trigger excl_put split: if_splits)
    next
      case (CHOTHER x)
      show ?thesis
        using assms hc CHOTHER
        by (auto simp: poll_clause_def hquery_def split: if_splits)
    qed
  qed
qed

lemma excl_poll:
  "waiter_excl s \<Longrightarrow> poll s n i ks = Some (r, s') \<Longrightarrow> waiter_excl s'"
proof (induction ks arbitrary: i)
  case Nil
  then show ?case by (auto split: if_splits)
next
  case (Cons k ks)
  show ?case
  proof (cases "poll_clause s i k")
    case None
    with Cons show ?thesis by (auto split: if_splits)
  next
    case (Some p)
    with Cons.prems have "poll_clause s i k = Some (r, s')" by (auto split: if_splits)
    from excl_poll_clause [OF Cons.prems(1) this] show ?thesis .
  qed
qed

lemma poll_clause_none_parkable: "poll_clause s i k = None \<Longrightarrow> parkable s k"
  by (cases "cl_op k")
     (auto simp: poll_clause_def parkable_def hquery_def Let_def size_mod_def
           split: option.splits hobj.splits if_splits)

lemma poll_none:
  "poll s n i ks = None \<Longrightarrow> i \<le> n \<Longrightarrow>
   nat (n - i) \<le> length ks \<and> (\<forall>k \<in> set (take (nat (n - i)) ks). parkable s k)"
proof (induction ks arbitrary: i)
  case Nil
  then show ?case by (auto split: if_splits)
next
  case (Cons k ks)
  show ?case
  proof (cases "i = n")
    case True
    then show ?thesis by simp
  next
    case False
    with Cons.prems have lt: "i < n" by simp
    from Cons.prems False have pc: "poll_clause s i k = None" and rest: "poll s n (i + 1) ks = None"
      by (auto split: option.splits)
    from Cons.IH [OF rest] lt
    have ih: "nat (n - (i + 1)) \<le> length ks"
      "\<forall>k \<in> set (take (nat (n - (i + 1))) ks). parkable s k"
      by simp_all
    have n1: "nat (n - i) = Suc (nat (n - (i + 1)))" using lt by simp
    show ?thesis
      using ih poll_clause_none_parkable [OF pc] by (simp add: n1)
  qed
qed

lemma parkable_waitfor:
  assumes pk: "parkable s k'"
    and dir: "cl_ch k' = cl_ch k \<longrightarrow> (cl_op k = CHRECV) = (cl_op k' = CHRECV)"
  shows "parkable (dill_waitfor s t i (cl_ch k) (if cl_op k = CHRECV then ChIn else ChOut) v) k'"
proof -
  from pk obtain c' where hc': "handles s (cl_ch k') = Some (HChan c')"
    and opp: "if cl_op k' = CHRECV then out_list c' = [] else in_list c' = []"
    by (auto simp: parkable_def split: option.splits hobj.splits)
  show ?thesis
  proof (cases "cl_ch k' = cl_ch k")
    case False
    have "handles (dill_waitfor s t i (cl_ch k) (if cl_op k = CHRECV then ChIn else ChOut) v)
            (cl_ch k') = handles s (cl_ch k')"
      using False by (simp add: dill_waitfor_def put_chan_def split: option.splits hobj.splits)
    then show ?thesis using pk by (simp add: parkable_def)
  next
    case True
    then have same: "(cl_op k = CHRECV) = (cl_op k' = CHRECV)" using dir by simp
    have hc: "handles s (cl_ch k) = Some (HChan c')" using hc' True by simp
    show ?thesis
    proof (cases "cl_op k' = CHRECV")
      case r: True
      then have "cl_op k = CHRECV" using same by simp
      then show ?thesis
        using hc opp r True
        by (simp add: parkable_def dill_waitfor_def put_chan_def list_insert_def)
    next
      case r: False
      then have "cl_op k \<noteq> CHRECV" using same by simp
      then show ?thesis
        using hc opp r True
        by (simp add: parkable_def dill_waitfor_def put_chan_def list_insert_def)
    qed
  qed
qed

lemma excl_park_loop:
  "waiter_excl s \<Longrightarrow> i \<le> n \<Longrightarrow> nat (n - i) \<le> length ks \<Longrightarrow>
   \<forall>k \<in> set (take (nat (n - i)) ks). parkable s k \<Longrightarrow>
   no_bidir (take (nat (n - i)) ks) \<Longrightarrow>
   \<exists>s'. park_loop s t n i ks = Inr s' \<and> waiter_excl s'"
proof (induction ks arbitrary: s i)
  case Nil
  from Nil(2,3) have "i = n" by simp
  then show ?case using Nil(1) by simp
next
  case (Cons k ks)
  show ?case
  proof (cases "i = n")
    case True
    then show ?thesis using Cons.prems(1) by simp
  next
    case False
    from False Cons.prems(2) have lt: "i < n" by simp
    define m where "m = nat (n - (i + 1))"
    have n1: "nat (n - i) = Suc m" using lt by (simp add: m_def)
    have tk: "take (nat (n - i)) (k # ks) = k # take m ks" unfolding n1 by simp
    have all: "\<forall>x \<in> set (k # take m ks). parkable s x"
      using Cons.prems(4) unfolding tk .
    have nbk: "no_bidir (k # take m ks)"
      using Cons.prems(5) unfolding tk .
    have pk: "parkable s k" using all by simp
    then obtain c where hc: "handles s (cl_ch k) = Some (HChan c)"
      and opp: "if cl_op k = CHRECV then out_list c = [] else in_list c = []"
      by (auto simp: parkable_def split: option.splits hobj.splits)
    define s1 where
      "s1 = dill_waitfor s t i (cl_ch k) (if cl_op k = CHRECV then ChIn else ChOut) (cl_val k)"
    have e1: "waiter_excl s1"
      unfolding s1_def
      using opp by (intro excl_waitfor [OF Cons.prems(1) hc]) (auto simp: get_list_def)
    have nb: "no_bidir (take m ks)"
      unfolding no_bidir_def
    proof (intro ballI impI)
      fix a b
      assume ab: "a \<in> set (take m ks)" "b \<in> set (take m ks)" "cl_ch a = cl_ch b"
      then have "a \<in> set (k # take m ks)" "b \<in> set (k # take m ks)" by simp_all
      with nbk [unfolded no_bidir_def] ab(3)
      show "(cl_op a = CHRECV) = (cl_op b = CHRECV)" by blast
    qed
    have pr: "\<forall>k' \<in> set (take m ks). parkable s1 k'"
    proof
      fix k' assume k': "k' \<in> set (take m ks)"
      then have p: "parkable s k'" using all by simp
      have "k \<in> set (k # take m ks)" "k' \<in> set (k # take m ks)"
        using k' by simp_all
      with nbk [unfolded no_bidir_def]
      have "cl_ch k' = cl_ch k \<longrightarrow> (cl_op k = CHRECV) = (cl_op k' = CHRECV)"
        by metis
      with p show "parkable s1 k'" unfolding s1_def by (rule parkable_waitfor)
    qed
    have le1: "i + 1 \<le> n" using lt by simp
    have len1: "nat (n - (i + 1)) \<le> length ks" using Cons.prems(3) n1 by (simp add: m_def)
    have "\<exists>s'. park_loop s1 t n (i + 1) ks = Inr s' \<and> waiter_excl s'"
      using e1 le1 len1 pr nb unfolding m_def by (rule Cons.IH)
    moreover have "park_loop s t n i (k # ks) = park_loop s1 t n (i + 1) ks"
      using False hc by (simp add: hquery_def s1_def)
    ultimately show ?thesis by simp
  qed
qed

lemma choose_unfold:
  assumes "\<not> shutdown s" "\<not> (n < 0 \<or> (n \<noteq> 0 \<and> cls = None))"
  shows "dill_choose s t cls n d =
           (case poll s n 0 (case cls of None \<Rightarrow> [] | Some xs \<Rightarrow> xs) of
              Some r \<Rightarrow> r
            | None \<Rightarrow>
                if d = 0 then (Ret (-1), s\<lparr>errno := ETIMEDOUT\<rparr>)
                else (case park_loop s t n 0 (case cls of None \<Rightarrow> [] | Some xs \<Rightarrow> xs) of
                        Inl f \<Rightarrow> (Fault f, s)
                      | Inr s2 \<Rightarrow> (Blocked, dill_timer s2 t n d)))"
proof -
  have "dill_canblock s = (0, s)" using assms(1) by (simp add: dill_canblock_def)
  then show ?thesis
    unfolding dill_choose_def using assms(2) by (simp only: Let_def prod.case if_False) simp
qed

lemma excl_choose:
  assumes ex: "waiter_excl s" and ok: "call_ok s (Choose t cls n d)"
  shows "waiter_excl (snd (dill_choose s t cls n d))"
proof (cases "shutdown s")
  case True
  then show ?thesis using ex by (simp add: dill_choose_def dill_canblock_def)
next
  case ns: False
  show ?thesis
  proof (cases "n < 0 \<or> (n \<noteq> 0 \<and> cls = None)")
    case True
    then show ?thesis using ex ns by (simp add: dill_choose_def dill_canblock_def)
  next
    case guard: False
    define ks where "ks = (case cls of None \<Rightarrow> [] | Some xs \<Rightarrow> xs)"
    note unf = choose_unfold [OF ns guard, of t d, folded ks_def]
    have n0: "0 \<le> n" using guard by simp
    show ?thesis
    proof (cases "poll s n 0 ks")
      case (Some p)
      obtain r s' where p: "p = (r, s')" by (cases p)
      from excl_poll [OF ex Some [unfolded p]] have "waiter_excl s'" .
      then show ?thesis unfolding unf Some p by simp
    next
      case None
      from poll_none [OF None n0]
      have pn: "nat (n - 0) \<le> length ks" "\<forall>k \<in> set (take (nat (n - 0)) ks). parkable s k"
        by blast+
      show ?thesis
      proof (cases "d = 0")
        case True
        then show ?thesis unfolding unf None using ex by simp
      next
        case dn: False
        show ?thesis
        proof (cases "park_loop s t n 0 ks")
          case (Inl f)
          then show ?thesis unfolding unf None using dn ex by simp
        next
          case (Inr s2)
          then have res: "dill_choose s t cls n d = (Blocked, dill_timer s2 t n d)"
            unfolding unf None using dn by simp
          with ok have "no_bidir (take (nat (n - 0)) ks)" by (simp add: ks_def)
          from excl_park_loop [OF ex n0 pn this, of t] Inr
          have "waiter_excl s2" by simp
          then show ?thesis by (simp add: res excl_timer)
        qed
      qed
    qed
  qed
qed

subsection \<open>Runs\<close>

lemma excl_step: "waiter_excl s \<Longrightarrow> call_ok s c \<Longrightarrow> waiter_excl (snd (step s c))"
proof (cases c)
  case (Create a b ok hm)
  assume "waiter_excl s"
  from excl_channel [OF this, of a b ok hm] show ?thesis
    by (auto simp: Create split: prod.splits)
next
  case (Choose t cls n d)
  assume "waiter_excl s" "call_ok s c"
  then show ?thesis using excl_choose [of s t cls n d] by (simp add: Choose)
qed (simp_all add: excl_chsend excl_chrecv excl_chdone excl_timer_fire)

lemma exec_snd_Cons: "snd (exec s (c # cs)) = snd (exec (snd (step s c)) cs)"
  by (simp split: prod.splits)

lemma calls_ok_take: "calls_ok s cs \<Longrightarrow> calls_ok s (take j cs)"
proof (induction cs arbitrary: s j)
  case Nil
  then show ?case by simp
next
  case (Cons c cs)
  then show ?case by (cases j) simp_all
qed

lemma excl_exec: "waiter_excl s \<Longrightarrow> calls_ok s cs \<Longrightarrow> waiter_excl (snd (exec s cs))"
proof (induction cs arbitrary: s)
  case Nil
  then show ?case by simp
next
  case (Cons c cs)
  from Cons.prems have "waiter_excl (snd (step s c))" "calls_ok (snd (step s c)) cs"
    by (simp_all add: excl_step)
  from Cons.IH [OF this] show ?case by (simp only: exec_snd_Cons)
qed

lemma run_ok_calls: "calls_ok start run_ok"
  by (simp add: run_ok_def start_def channel_def chsend_def chrecv_def dill_choose_def
        dill_canblock_def hquery_def put_chan_def dill_waitfor_def dill_timer_def
        dill_trigger_def list_insert_def poll_clause_def size_mod_def send0_def memcpy_def
        unlink_def no_bidir_def)

section \<open>Waiter exclusion over runs\<close>

text \<open>
  Claim C2 (I1, P1), as amended. Start from a state in which no channel has both
  waiter lists non-empty, such as the state before any channel exists, and run any
  sequence of top-level operations (create, send, receive, done, choose, and timer
  expiries) in which no \<open>choose\<close> call parks clauses of both directions on the same
  channel. Then after every prefix of the sequence no channel has both its
  \<open>send_waiters\<close> and its \<open>recv_waiters\<close> non-empty.
\<close>

theorem waiter_exclusion:
  assumes "waiter_excl s" and "calls_ok s cs"
  shows "waiter_excl (snd (exec s (take j cs)))"
  using assms by (intro excl_exec calls_ok_take)

theorem waiter_exclusion_witness:
  "waiter_excl start \<and> calls_ok start run_ok \<and> waiter_excl (snd (exec start (take 4 run_ok)))"
proof -
  have a: "waiter_excl start" by (simp add: waiter_excl_def start_def)
  from waiter_exclusion [OF a run_ok_calls, of 4] a run_ok_calls show ?thesis by blast
qed

text \<open>
  Claim C2 as it is stated fails, in the very case it includes: a \<open>choose\<close> with a
  send-clause and a receive-clause on the same unbuffered channel finds neither
  available and parks one clause on each waiter list of that channel.
\<close>

theorem choose_parks_both_directions:
  "no_channels start \<and>
   waiters (snd (exec start run_bidir)) 0 ChIn = [\<lparr>cr = 1, clid = 1, val = 11\<rparr>] \<and>
   waiters (snd (exec start run_bidir)) 0 ChOut = [\<lparr>cr = 1, clid = 0, val = 10\<rparr>] \<and>
   \<not> waiter_excl (snd (exec start run_bidir))"
proof -
  have h: "handles (snd (exec start run_bidir)) 0 =
             Some (HChan \<lparr>sz = 1, in_list = [\<lparr>cr = 1, clid = 1, val = 11\<rparr>],
                           out_list = [\<lparr>cr = 1, clid = 0, val = 10\<rparr>], bufsz = 0, items = 0,
                           first = 0, done_flag = False, buf = []\<rparr>)"
    by (simp add: run_bidir_def start_def channel_def dill_choose_def
        dill_canblock_def hquery_def put_chan_def dill_waitfor_def dill_timer_def
        list_insert_def poll_clause_def send0_def recv0_def)
  have n: "\<not> waiter_excl (snd (exec start run_bidir))"
  proof
    assume "waiter_excl (snd (exec start run_bidir))"
    from excl_chan [OF this h] show False by simp
  qed
  have "no_channels start" by (simp add: no_channels_def start_def)
  with h n show ?thesis by (simp add: waiters_def get_list_def)
qed

section \<open>Occupancy and the modulo operations\<close>

subsection \<open>Single operations keep the occupancy bound and do not divide by zero\<close>

lemma counts_chan: "counts_ok s \<Longrightarrow> handles s h = Some (HChan c) \<Longrightarrow> items c \<le> bufsz c"
  by (auto simp: counts_ok_def)

lemma counts_trigger: "counts_ok s \<Longrightarrow> counts_ok (dill_trigger s k e)"
  unfolding counts_ok_def
proof (intro allI impI)
  fix h c
  assume a: "\<forall>h c. handles s h = Some (HChan c) \<longrightarrow> items c \<le> bufsz c"
    and b: "handles (dill_trigger s k e) h = Some (HChan c)"
  from b obtain c0 where c0: "handles s h = Some (HChan c0)" "c = unlink (cr k) c0"
    by (cases "handles s h"; cases "the (handles s h)") (auto simp: dill_trigger_def)
  from a c0(1) have "items c0 \<le> bufsz c0" by blast
  then show "items c \<le> bufsz c" by (simp add: c0(2) unlink_def)
qed

lemma counts_put: "counts_ok s \<Longrightarrow> items c \<le> bufsz c \<Longrightarrow> counts_ok (put_chan s h c)"
  by (auto simp: counts_ok_def put_chan_def)

lemma counts_fields [simp]:
  "counts_ok (s\<lparr>errno := e\<rparr>) = counts_ok s"
  "counts_ok (s\<lparr>memory := m\<rparr>) = counts_ok s"
  "counts_ok (s\<lparr>timers := tm\<rparr>) = counts_ok s"
  "counts_ok (s\<lparr>wakeup := w\<rparr>) = counts_ok s"
  by (simp_all add: counts_ok_def)

lemma counts_timer: "counts_ok (dill_timer s t i d) = counts_ok s"
  by (simp add: dill_timer_def)

lemma counts_waitfor: "counts_ok s \<Longrightarrow> counts_ok (dill_waitfor s t i h l v)"
proof (cases "handles s h")
  case None
  assume "counts_ok s"
  then show ?thesis using None by (simp add: dill_waitfor_def)
next
  case (Some o1)
  assume c: "counts_ok s"
  show ?thesis
  proof (cases o1)
    case HOther
    then show ?thesis using c Some by (simp add: dill_waitfor_def)
  next
    case (HChan c0)
    then have hc: "handles s h = Some (HChan c0)" using Some by simp
    from counts_chan [OF c hc] have "items (list_insert l \<lparr>cr = t, clid = i, val = v\<rparr> c0)
        \<le> bufsz (list_insert l \<lparr>cr = t, clid = i, val = v\<rparr> c0)"
      by (cases l) (simp_all add: list_insert_def)
    from counts_put [OF c this] show ?thesis using hc by (simp add: dill_waitfor_def)
  qed
qed

lemma counts_drain: "counts_ok s \<Longrightarrow> counts_ok (drain s h l)"
proof (induction s h l rule: drain.induct)
  case (1 s h l)
  show ?case
  proof (cases "waiters s h l")
    case Nil
    then show ?thesis using "1.prems" by (simp add: drain.simps [of s h l])
  next
    case (Cons k ks)
    from "1.IH" [OF Cons counts_trigger [OF "1.prems"]] show ?thesis
      using Cons by (simp add: drain.simps [of s h l])
  qed
qed

lemma items_inc_le: "(a :: size_t) < b \<Longrightarrow> a + 1 \<le> b"
  by (rule inc_le)

lemma items_dec_le:
  fixes a b :: size_t
  assumes "a \<le> b" "a \<noteq> 0"
  shows "a - 1 \<le> b"
proof -
  have "unat (a - 1) = unat a - 1" using assms(2) by (simp add: unat_minus_one)
  moreover have "unat a \<le> unat b" using assms(1) by (simp add: word_le_nat_alt)
  ultimately show ?thesis by (simp add: word_le_nat_alt)
qed

lemma cap_nonzero: "(a :: size_t) \<le> b \<Longrightarrow> a \<noteq> 0 \<Longrightarrow> b \<noteq> 0"
  by auto

lemma counts_channel: "counts_ok s \<Longrightarrow> counts_ok (snd (channel s itemsz bsz ok hm))"
  by (auto simp: channel_def dill_canblock_def Let_def intro!: counts_put split: sum.splits)

lemma counts_chsend:
  assumes "counts_ok s"
  shows "fst (chsend s t h v len d) \<noteq> Fault DivByZero \<and> counts_ok (snd (chsend s t h v len d))"
proof (cases "handles s h")
  case None
  then show ?thesis using assms by (simp add: chsend_def dill_canblock_def hquery_def)
next
  case (Some o1)
  show ?thesis
  proof (cases o1)
    case HOther
    then show ?thesis using assms Some by (simp add: chsend_def dill_canblock_def hquery_def)
  next
    case (HChan c)
    have hc: "handles s h = Some (HChan c)" using Some HChan by simp
    have inc: "items c < bufsz c \<Longrightarrow> items c + 1 \<le> bufsz c" by (rule items_inc_le)
    have nz: "items c < bufsz c \<Longrightarrow> bufsz c \<noteq> 0" by auto
    show ?thesis
      using assms hc inc nz
      by (auto simp: chsend_def dill_canblock_def hquery_def Let_def size_mod_def counts_timer
               intro!: counts_trigger counts_put counts_waitfor)
  qed
qed

lemma counts_chrecv:
  assumes "counts_ok s"
  shows "fst (chrecv s t h v len d) \<noteq> Fault DivByZero \<and> counts_ok (snd (chrecv s t h v len d))"
proof (cases "handles s h")
  case None
  then show ?thesis using assms by (simp add: chrecv_def dill_canblock_def hquery_def)
next
  case (Some o1)
  show ?thesis
  proof (cases o1)
    case HOther
    then show ?thesis using assms Some by (simp add: chrecv_def dill_canblock_def hquery_def)
  next
    case (HChan c)
    have hc: "handles s h = Some (HChan c)" using Some HChan by simp
    from counts_chan [OF assms hc] have le: "items c \<le> bufsz c" .
    have dec: "items c \<noteq> 0 \<Longrightarrow> items c - 1 \<le> bufsz c" using le by (rule items_dec_le)
    have nz: "items c \<noteq> 0 \<Longrightarrow> bufsz c \<noteq> 0" using le by (rule cap_nonzero)
    show ?thesis
      using assms hc le dec nz
      by (auto simp: chrecv_def dill_canblock_def hquery_def Let_def size_mod_def counts_timer
               intro!: counts_trigger counts_put counts_waitfor)
  qed
qed

lemma counts_chdone:
  assumes "counts_ok s"
  shows "fst (chdone s h) \<noteq> Fault DivByZero \<and> counts_ok (snd (chdone s h))"
proof (cases "handles s h")
  case None
  then show ?thesis using assms by (simp add: chdone_def hquery_def)
next
  case (Some o1)
  show ?thesis
  proof (cases o1)
    case HOther
    then show ?thesis using assms Some by (simp add: chdone_def hquery_def)
  next
    case (HChan c)
    have hc: "handles s h = Some (HChan c)" using Some HChan by simp
    from counts_chan [OF assms hc] have le: "items c \<le> bufsz c" .
    have "counts_ok (put_chan s h (c\<lparr>done_flag := True\<rparr>))"
      using le by (intro counts_put assms) simp
    then have "counts_ok (drain (drain (put_chan s h (c\<lparr>done_flag := True\<rparr>)) h ChIn) h ChOut)"
      by (intro counts_drain)
    then show ?thesis
      using assms hc by (simp add: chdone_def hquery_def)
  qed
qed

lemma counts_timer_fire: "counts_ok s \<Longrightarrow> counts_ok (timer_fire s t)"
  by (auto simp: timer_fire_def intro!: counts_trigger split: option.splits)

lemma counts_poll_clause:
  assumes "counts_ok s" "poll_clause s i k = Some (r, s')"
  shows "r \<noteq> Fault DivByZero \<and> counts_ok s'"
proof (cases "handles s (cl_ch k)")
  case None
  then show ?thesis using assms by (auto simp: poll_clause_def hquery_def)
next
  case (Some o1)
  show ?thesis
  proof (cases o1)
    case HOther
    then show ?thesis using assms Some by (auto simp: poll_clause_def hquery_def)
  next
    case (HChan c)
    have hc: "handles s (cl_ch k) = Some (HChan c)" using Some HChan by simp
    from counts_chan [OF assms(1) hc] have le: "items c \<le> bufsz c" .
    have inc: "items c < bufsz c \<Longrightarrow> items c + 1 \<le> bufsz c" by (rule items_inc_le)
    have nz1: "items c < bufsz c \<Longrightarrow> bufsz c \<noteq> 0" by auto
    have dec: "items c \<noteq> 0 \<Longrightarrow> items c - 1 \<le> bufsz c" using le by (rule items_dec_le)
    have nz: "items c \<noteq> 0 \<Longrightarrow> bufsz c \<noteq> 0" using le by (rule cap_nonzero)
    show ?thesis
    proof (cases "cl_op k")
      case CHSEND
      show ?thesis
        using assms hc le inc nz1 CHSEND
        by (auto simp: poll_clause_def hquery_def Let_def size_mod_def
                 intro!: counts_trigger counts_put split: if_splits)
    next
      case CHRECV
      show ?thesis
        using assms hc le dec nz CHRECV
        by (auto simp: poll_clause_def hquery_def Let_def size_mod_def
                 intro!: counts_trigger counts_put split: if_splits)
    next
      case (CHOTHER x)
      show ?thesis
        using assms hc CHOTHER
        by (auto simp: poll_clause_def hquery_def split: if_splits)
    qed
  qed
qed

lemma counts_poll:
  "counts_ok s \<Longrightarrow> poll s n i ks = Some (r, s') \<Longrightarrow> r \<noteq> Fault DivByZero \<and> counts_ok s'"
proof (induction ks arbitrary: i)
  case Nil
  then show ?case by (auto split: if_splits)
next
  case (Cons k ks)
  show ?case
  proof (cases "poll_clause s i k")
    case None
    with Cons show ?thesis by (auto split: if_splits)
  next
    case (Some p)
    with Cons.prems have "poll_clause s i k = Some (r, s')" by (auto split: if_splits)
    from counts_poll_clause [OF Cons.prems(1) this] show ?thesis .
  qed
qed

lemma counts_park_loop:
  "counts_ok s \<Longrightarrow> park_loop s t n i ks = Inr s' \<Longrightarrow> counts_ok s'"
proof (induction ks arbitrary: s i)
  case Nil
  then show ?case by (auto split: if_splits)
next
  case (Cons k ks)
  show ?case
  proof (cases "i = n")
    case True
    then show ?thesis using Cons.prems by simp
  next
    case False
    show ?thesis
    proof (cases "handles s (cl_ch k)")
      case None
      then show ?thesis using Cons.prems False by (simp add: hquery_def)
    next
      case (Some o1)
      show ?thesis
      proof (cases o1)
        case HOther
        then show ?thesis using Cons.prems False Some by (simp add: hquery_def)
      next
        case (HChan c)
        then have "park_loop (dill_waitfor s t i (cl_ch k)
                     (if cl_op k = CHRECV then ChIn else ChOut) (cl_val k)) t n (i + 1) ks = Inr s'"
          using Cons.prems(2) False Some by (simp add: hquery_def)
        from Cons.IH [OF counts_waitfor [OF Cons.prems(1)] this] show ?thesis .
      qed
    qed
  qed
qed

subsection \<open>choose and runs\<close>

lemma park_loop_fault: "park_loop s t n i ks \<noteq> Inl DivByZero"
proof (induction ks arbitrary: s i)
  case Nil
  then show ?case by simp
next
  case (Cons k ks)
  then show ?case
    by (cases "handles s (cl_ch k)"; cases "the (handles s (cl_ch k))")
       (simp_all add: hquery_def)
qed

lemma counts_choose:
  assumes c: "counts_ok s"
  shows "fst (dill_choose s t cls n d) \<noteq> Fault DivByZero \<and>
         counts_ok (snd (dill_choose s t cls n d))"
proof (cases "shutdown s")
  case True
  then show ?thesis using c by (simp add: dill_choose_def dill_canblock_def)
next
  case ns: False
  show ?thesis
  proof (cases "n < 0 \<or> (n \<noteq> 0 \<and> cls = None)")
    case True
    then show ?thesis using c ns by (simp add: dill_choose_def dill_canblock_def)
  next
    case guard: False
    define ks where "ks = (case cls of None \<Rightarrow> [] | Some xs \<Rightarrow> xs)"
    note unf = choose_unfold [OF ns guard, of t d, folded ks_def]
    show ?thesis
    proof (cases "poll s n 0 ks")
      case (Some p)
      obtain r s' where p: "p = (r, s')" by (cases p)
      from counts_poll [OF c Some [unfolded p]] show ?thesis unfolding unf Some p by simp
    next
      case None
      show ?thesis
      proof (cases "d = 0")
        case True
        then show ?thesis unfolding unf None using c by simp
      next
        case dn: False
        show ?thesis
        proof (cases "park_loop s t n 0 ks")
          case (Inl f)
          then have "f \<noteq> DivByZero" using park_loop_fault [of s t n 0 ks] by auto
          then show ?thesis unfolding unf None using dn c Inl by simp
        next
          case (Inr s2)
          from counts_park_loop [OF c Inr] show ?thesis
            unfolding unf None using dn Inr by (simp add: counts_timer)
        qed
      qed
    qed
  qed
qed

lemma counts_step:
  assumes "counts_ok s"
  shows "fst (step s c) \<noteq> Fault DivByZero \<and> counts_ok (snd (step s c))"
proof (cases c)
  case (Create a b ok hm)
  from counts_channel [OF assms, of a b ok hm] show ?thesis
    by (auto simp: Create split: prod.splits)
next
  case (Send t h v len d)
  then show ?thesis using counts_chsend [OF assms] by simp
next
  case (Recv t h v len d)
  then show ?thesis using counts_chrecv [OF assms] by simp
next
  case (Done h)
  then show ?thesis using counts_chdone [OF assms] by simp
next
  case (Choose t cls n d)
  then show ?thesis using counts_choose [OF assms] by simp
next
  case (Expire t)
  then show ?thesis using counts_timer_fire [OF assms] by simp
qed

lemma exec_Cons: "exec s (c # cs) = (fst (step s c) # fst (exec (snd (step s c)) cs),
                                     snd (exec (snd (step s c)) cs))"
  by (simp split: prod.splits)

section \<open>No modulo by zero\<close>

text \<open>
  Claim C9: the modulo operations of \<open>chsend\<close>, \<open>chrecv\<close> and \<open>choose\<close> are
  reached only with \<open>bufsz > 0\<close>. The guard of the write path is \<open>items < bufsz\<close>;
  the guard of the read path is \<open>items > 0\<close>, and \<open>items \<le> bufsz\<close> holds in every
  state that a run of top-level operations reaches from a state where it holds, such as
  the state before any channel exists. So no operation of such a run divides by zero,
  and a channel of capacity \<open>0\<close> never holds a buffered item: its buffer paths are not
  taken.
\<close>

theorem no_division_by_zero:
  assumes "counts_ok s"
  shows "Fault DivByZero \<notin> set (fst (exec s cs)) \<and> counts_ok (snd (exec s cs)) \<and>
         (\<forall>h c. handles (snd (exec s cs)) h = Some (HChan c) \<and> bufsz c = 0 \<longrightarrow> items c = 0)"
proof -
  have "Fault DivByZero \<notin> set (fst (exec s cs)) \<and> counts_ok (snd (exec s cs))"
    using assms
  proof (induction cs arbitrary: s)
    case Nil
    then show ?case by simp
  next
    case (Cons c cs)
    from counts_step [OF Cons.prems, of c]
    have st: "fst (step s c) \<noteq> Fault DivByZero" "counts_ok (snd (step s c))" by simp_all
    from Cons.IH [OF st(2)] st(1) show ?case
      by (simp only: exec_Cons fst_conv snd_conv) auto
  qed
  moreover have "items c = 0"
    if "counts_ok (snd (exec s cs))" "handles (snd (exec s cs)) h = Some (HChan c)" "bufsz c = 0"
    for h c
    using counts_chan [OF that(1,2)] that(3) by simp
  ultimately show ?thesis by blast
qed

theorem no_division_by_zero_witness:
  "counts_ok start \<and> Fault DivByZero \<notin> set (fst (exec start run_buffered)) \<and>
   counts_ok (snd (exec start run_buffered)) \<and>
   fst (exec start run_buffered) = [Ret 0, Ret 0, Ret 0, Ret (-1), Ret 0, Ret 1, Ret (-1)] \<and>
   memory (snd (exec start run_buffered)) 12 = [7] \<and>
   handles (snd (exec start run_buffered)) 1 = Some (HChan idle1) \<and> bufsz idle1 = 0 \<and>
   items idle1 = 0"
proof -
  have a: "counts_ok start" by (simp add: counts_ok_def start_def)
  have b: "fst (exec start run_buffered) = [Ret 0, Ret 0, Ret 0, Ret (-1), Ret 0, Ret 1, Ret (-1)] \<and>
           memory (snd (exec start run_buffered)) 12 = [7] \<and>
           handles (snd (exec start run_buffered)) 1 = Some (HChan idle1)"
    by (simp add: run_buffered_def start_def channel_def chsend_def chrecv_def
        dill_canblock_def hquery_def put_chan_def size_mod_def memcpy_def idle1_def)
  have c: "bufsz idle1 = 0" by (simp add: idle1_def)
  from no_division_by_zero [OF a, of run_buffered] b c
  have "items idle1 = 0" by blast
  with no_division_by_zero [OF a, of run_buffered] a b c show ?thesis by blast
qed

end
